theory Spec2Isabelle
  imports Main "HOL-Library.Word"
begin

section \<open>Portenta\_H7\_ISR\_Timer: the software timer multiplexer\<close>

text \<open>
  The embedding follows \<^verbatim>\<open>Portenta_H7_ISR_Timer-Impl.h\<close>, function by function. What the
  class declaration in \<^verbatim>\<open>Portenta_H7_ISR_Timer.h\<close> contributes (types, the capacity and
  the sentinels) enters as follows.
  \<^item> The board is a 32-bit Cortex-M7: \<^verbatim>\<open>unsigned\<close>, \<^verbatim>\<open>unsigned long\<close>, \<^verbatim>\<open>int\<close> and
    pointers are 32 bits wide. Unsigned values are \<open>32 word\<close>; the signed counter
    \<^verbatim>\<open>numTimers\<close> is a \<open>32 word\<close> read with \<open>sint\<close>.
  \<^item> The array \<^verbatim>\<open>timer[MAX_NUMBER_TIMERS]\<close> is a list; its length is the capacity, so
    \<^verbatim>\<open>MAX_NUMBER_TIMERS\<close> is read off the array. The loop counters of the code are
    \<^verbatim>\<open>uint8_t\<close>, so the loops visit the indices \<open>0, ..., MAX_NUMBER_TIMERS - 1\<close> as
    long as the capacity is at most 255; theorems that depend on it say so.
  \<^item> The sentinel \<^verbatim>\<open>TIMER_RUN_FOREVER\<close> is a parameter \<open>RF\<close> of the functions that use
    it: every theorem holds for each value of the sentinel.
  \<^item> \<^verbatim>\<open>millis()\<close> is the platform clock. Each function that reads it takes the value
    read as an argument, one argument for each read.
  \<^item> A callback is opaque code. Invoking it is recorded in the trace \<open>calls\<close> of the
    state (slot index, callback pointer and, for the one-argument shape, the
    parameter); the callback itself is taken not to call back into the scheduler.
\<close>

type_synonym ulong = "32 word"
type_synonym unsigned = "32 word"
type_synonym ptr = "32 word"

definition NULL :: ptr where
  "NULL = 0"

text \<open>Modelled from the spec: the three values of \<^verbatim>\<open>toBeCalled\<close> (the macros
  \<^verbatim>\<open>TIMER_DEFCALL_*\<close> of the header); the value \<^verbatim>\<open>memset\<close> leaves in a zeroed slot is
  \<^verbatim>\<open>TIMER_DEFCALL_DONTRUN\<close>.\<close>

datatype defcall = TIMER_DEFCALL_DONTRUN | TIMER_DEFCALL_RUNONLY | TIMER_DEFCALL_RUNANDDEL

text \<open>Modelled from the spec: the struct \<^verbatim>\<open>timer_t\<close> of the header, with the fields the
  implementation reads and writes and the types of the data model (unsigned period,
  millisecond timestamp, run counters, opaque pointers).\<close>

record timer_t =
  prev_millis :: ulong
  callback :: ptr
  param :: ptr
  hasParam :: bool
  delay :: ulong
  maxNumRuns :: unsigned
  numRuns :: unsigned
  enabled :: bool
  toBeCalled :: defcall

text \<open>An invocation of a callback: \<^verbatim>\<open>(*callback)()\<close> or \<^verbatim>\<open>(*callback)(param)\<close>.\<close>

datatype invocation = Call0 ptr | Call1 ptr ptr

text \<open>The object: the slot array, the counter \<^verbatim>\<open>numTimers\<close>, and the trace of the
  invocations made so far.\<close>

record ISR_Timer =
  timer :: "timer_t list"
  numTimers :: "32 word"
  calls :: "(nat \<times> invocation) list"

datatype error = DivisionByZero

definition MAX_NUMBER_TIMERS :: "ISR_Timer \<Rightarrow> nat" where
  "MAX_NUMBER_TIMERS s = length (timer s)"

text \<open>\<^verbatim>\<open>memset (&timer[i], 0, sizeof (timer_t))\<close>: every field is zero.\<close>

definition zeroed :: timer_t where
  "zeroed = \<lparr>prev_millis = 0, callback = NULL, param = NULL, hasParam = False, delay = 0,
     maxNumRuns = 0, numRuns = 0, enabled = False, toBeCalled = TIMER_DEFCALL_DONTRUN\<rparr>"

text \<open>The constructor sets \<^verbatim>\<open>numTimers\<close> to -1 and leaves the array as it finds it.\<close>

definition Portenta_H7_ISR_Timer :: "timer_t list \<Rightarrow> ISR_Timer" where
  "Portenta_H7_ISR_Timer ts = \<lparr>timer = ts, numTimers = - 1, calls = []\<rparr>"

definition init :: "ulong \<Rightarrow> ISR_Timer \<Rightarrow> ISR_Timer" where
  "init current_millis s =
     s\<lparr>timer := fold (\<lambda>i ts. ts[i := zeroed\<lparr>prev_millis := current_millis\<rparr>])
                    [0..<MAX_NUMBER_TIMERS s] (timer s),
       numTimers := 0\<rparr>"

subsection \<open>run: scan, then dispatch\<close>

text \<open>The body of the first loop of \<^verbatim>\<open>run\<close> for one slot. The division by
  \<^verbatim>\<open>timer[i].delay\<close> is not guarded in the code; the model returns an error there.\<close>

definition scan_slot :: "unsigned \<Rightarrow> ulong \<Rightarrow> timer_t \<Rightarrow> error + timer_t" where
  "scan_slot RF current_millis t0 =
     (let t = t0\<lparr>toBeCalled := TIMER_DEFCALL_DONTRUN\<rparr> in
      if callback t \<noteq> NULL then
        if current_millis - prev_millis t \<ge> delay t then
          if delay t = 0 then Inl DivisionByZero
          else
            let skipTimes = (current_millis - prev_millis t) div delay t;
                t = t\<lparr>prev_millis := prev_millis t + delay t * skipTimes\<rparr>
            in
              if enabled t then
                if maxNumRuns t = RF then Inr (t\<lparr>toBeCalled := TIMER_DEFCALL_RUNONLY\<rparr>)
                else if numRuns t < maxNumRuns t then
                  let t = t\<lparr>toBeCalled := TIMER_DEFCALL_RUNONLY, numRuns := numRuns t + 1\<rparr>
                  in if numRuns t \<ge> maxNumRuns t
                     then Inr (t\<lparr>toBeCalled := TIMER_DEFCALL_RUNANDDEL\<rparr>)
                     else Inr t
                else Inr t
              else Inr t
        else Inr t
      else Inr t)"

fun scan_loop :: "unsigned \<Rightarrow> ulong \<Rightarrow> nat list \<Rightarrow> timer_t list \<Rightarrow> error + timer_t list" where
  "scan_loop RF current_millis [] ts = Inr ts"
| "scan_loop RF current_millis (i # is) ts =
     (case scan_slot RF current_millis (ts ! i) of
        Inl e \<Rightarrow> Inl e
      | Inr t \<Rightarrow> scan_loop RF current_millis is (ts[i := t]))"

definition scan :: "unsigned \<Rightarrow> ulong \<Rightarrow> ISR_Timer \<Rightarrow> error + ISR_Timer" where
  "scan RF current_millis s =
     (case scan_loop RF current_millis [0..<MAX_NUMBER_TIMERS s] (timer s) of
        Inl e \<Rightarrow> Inl e
      | Inr ts \<Rightarrow> Inr (s\<lparr>timer := ts\<rparr>))"

definition deleteTimer :: "unsigned \<Rightarrow> ulong \<Rightarrow> ISR_Timer \<Rightarrow> ISR_Timer" where
  "deleteTimer timerId now s =
     (if unat timerId \<ge> MAX_NUMBER_TIMERS s then s
      else if numTimers s = 0 then s
      else if callback (timer s ! unat timerId) \<noteq> NULL then
        s\<lparr>timer := (timer s)[unat timerId := zeroed\<lparr>prev_millis := now\<rparr>],
          numTimers := numTimers s - 1\<rparr>
      else s)"

text \<open>The body of the second loop of \<^verbatim>\<open>run\<close> for slot \<open>i\<close>; \<open>dm i\<close> is the clock
  value that \<^verbatim>\<open>deleteTimer (i)\<close> reads.\<close>

definition dispatch_slot :: "(nat \<Rightarrow> ulong) \<Rightarrow> nat \<Rightarrow> ISR_Timer \<Rightarrow> ISR_Timer" where
  "dispatch_slot dm i s =
     (let t = timer s ! i in
      if toBeCalled t = TIMER_DEFCALL_DONTRUN then s
      else
        let s1 = s\<lparr>calls := calls s @
                   [(i, if hasParam t then Call1 (callback t) (param t) else Call0 (callback t))]\<rparr>
        in if toBeCalled t = TIMER_DEFCALL_RUNANDDEL then deleteTimer (of_nat i) (dm i) s1
           else s1)"

definition dispatch :: "(nat \<Rightarrow> ulong) \<Rightarrow> ISR_Timer \<Rightarrow> ISR_Timer" where
  "dispatch dm s = fold (dispatch_slot dm) [0..<MAX_NUMBER_TIMERS s] s"

definition run :: "unsigned \<Rightarrow> ulong \<Rightarrow> (nat \<Rightarrow> ulong) \<Rightarrow> ISR_Timer \<Rightarrow> error + ISR_Timer" where
  "run RF current_millis dm s =
     (case scan RF current_millis s of
        Inl e \<Rightarrow> Inl e
      | Inr s1 \<Rightarrow> Inr (dispatch dm s1))"

subsection \<open>Registration\<close>

definition findFirstFreeSlot :: "ISR_Timer \<Rightarrow> int" where
  "findFirstFreeSlot s =
     (if sint (numTimers s) \<ge> int (MAX_NUMBER_TIMERS s) then - 1
      else case find (\<lambda>i. callback (timer s ! i) = NULL) [0..<MAX_NUMBER_TIMERS s] of
             Some i \<Rightarrow> int i
           | None \<Rightarrow> - 1)"

text \<open>\<open>m0\<close> is the clock read by the lazy \<^verbatim>\<open>init ()\<close>, \<open>m1\<close> the one stored in the slot.\<close>

definition setupTimer ::
  "ulong \<Rightarrow> ptr \<Rightarrow> ptr \<Rightarrow> bool \<Rightarrow> unsigned \<Rightarrow> ulong \<Rightarrow> ulong \<Rightarrow> ISR_Timer \<Rightarrow> int \<times> ISR_Timer" where
  "setupTimer d f p h n m0 m1 s0 =
     (let s = (if sint (numTimers s0) < 0 then init m0 s0 else s0);
          freeTimer = findFirstFreeSlot s
      in
        if freeTimer < 0 then (- 1, s)
        else if f = NULL then (- 1, s)
        else
          (freeTimer,
           s\<lparr>timer := (timer s)[nat freeTimer :=
                (timer s ! nat freeTimer)\<lparr>delay := d, callback := f, param := p, hasParam := h,
                   maxNumRuns := n, enabled := True, prev_millis := m1\<rparr>],
             numTimers := numTimers s + 1\<rparr>))"

subsection \<open>Operations on one slot\<close>

definition changeInterval :: "unsigned \<Rightarrow> ulong \<Rightarrow> ulong \<Rightarrow> ISR_Timer \<Rightarrow> bool \<times> ISR_Timer" where
  "changeInterval numTimer d now s =
     (if unat numTimer \<ge> MAX_NUMBER_TIMERS s then (False, s)
      else if callback (timer s ! unat numTimer) \<noteq> NULL then
        (True, s\<lparr>timer := (timer s)[unat numTimer :=
                    (timer s ! unat numTimer)\<lparr>delay := d, prev_millis := now\<rparr>]\<rparr>)
      else (False, s))"

definition restartTimer :: "unsigned \<Rightarrow> ulong \<Rightarrow> ISR_Timer \<Rightarrow> ISR_Timer" where
  "restartTimer numTimer now s =
     (if unat numTimer \<ge> MAX_NUMBER_TIMERS s then s
      else s\<lparr>timer := (timer s)[unat numTimer := (timer s ! unat numTimer)\<lparr>prev_millis := now\<rparr>]\<rparr>)"

definition isEnabled :: "unsigned \<Rightarrow> ISR_Timer \<Rightarrow> bool" where
  "isEnabled numTimer s =
     (if unat numTimer \<ge> MAX_NUMBER_TIMERS s then False
      else enabled (timer s ! unat numTimer))"

definition enable :: "unsigned \<Rightarrow> ISR_Timer \<Rightarrow> ISR_Timer" where
  "enable numTimer s =
     (if unat numTimer \<ge> MAX_NUMBER_TIMERS s then s
      else s\<lparr>timer := (timer s)[unat numTimer := (timer s ! unat numTimer)\<lparr>enabled := True\<rparr>]\<rparr>)"

definition disable :: "unsigned \<Rightarrow> ISR_Timer \<Rightarrow> ISR_Timer" where
  "disable numTimer s =
     (if unat numTimer \<ge> MAX_NUMBER_TIMERS s then s
      else s\<lparr>timer := (timer s)[unat numTimer := (timer s ! unat numTimer)\<lparr>enabled := False\<rparr>]\<rparr>)"

definition toggle :: "unsigned \<Rightarrow> ISR_Timer \<Rightarrow> ISR_Timer" where
  "toggle numTimer s =
     (if unat numTimer \<ge> MAX_NUMBER_TIMERS s then s
      else s\<lparr>timer := (timer s)[unat numTimer :=
                (timer s ! unat numTimer)\<lparr>enabled := \<not> enabled (timer s ! unat numTimer)\<rparr>]\<rparr>)"

definition enableAll :: "unsigned \<Rightarrow> ISR_Timer \<Rightarrow> ISR_Timer" where
  "enableAll RF s =
     s\<lparr>timer := fold (\<lambda>i ts. if callback (ts ! i) \<noteq> NULL \<and> numRuns (ts ! i) = RF
                              then ts[i := (ts ! i)\<lparr>enabled := True\<rparr>] else ts)
                    [0..<MAX_NUMBER_TIMERS s] (timer s)\<rparr>"

definition disableAll :: "unsigned \<Rightarrow> ISR_Timer \<Rightarrow> ISR_Timer" where
  "disableAll RF s =
     s\<lparr>timer := fold (\<lambda>i ts. if callback (ts ! i) \<noteq> NULL \<and> numRuns (ts ! i) = RF
                              then ts[i := (ts ! i)\<lparr>enabled := False\<rparr>] else ts)
                    [0..<MAX_NUMBER_TIMERS s] (timer s)\<rparr>"

text \<open>\<^verbatim>\<open>getNumTimers\<close> returns the \<^verbatim>\<open>int\<close> counter as \<^verbatim>\<open>unsigned\<close>: the same 32 bits.\<close>

definition getNumTimers :: "ISR_Timer \<Rightarrow> unsigned" where
  "getNumTimers s = numTimers s"

subsection \<open>Observations and drivers used by the theorems\<close>

text \<open>How often the callback of slot \<open>i\<close> has been invoked so far.\<close>

definition fired :: "nat \<Rightarrow> ISR_Timer \<Rightarrow> nat" where
  "fired i s = length (filter (\<lambda>c. fst c = i) (calls s))"

text \<open>The number of slots in use, that is, with a callback.\<close>

definition in_use_count :: "ISR_Timer \<Rightarrow> nat" where
  "in_use_count s = length (filter (\<lambda>t. callback t \<noteq> NULL) (timer s))"

text \<open>A run of \<^verbatim>\<open>run ()\<close> calls with nothing in between; each tick comes with the
  clock values it reads.\<close>

fun ticks :: "unsigned \<Rightarrow> (ulong \<times> (nat \<Rightarrow> ulong)) list \<Rightarrow> ISR_Timer \<Rightarrow> error + ISR_Timer" where
  "ticks RF [] s = Inr s"
| "ticks RF (tk # tks) s =
     (case run RF (fst tk) (snd tk) s of
        Inl e \<Rightarrow> Inl e
      | Inr s1 \<Rightarrow> ticks RF tks s1)"

text \<open>A sequence of \<^verbatim>\<open>setupTimer\<close> calls, collecting the returned slot ids. A request is
  \<open>(d, f, p, h, n, m0, m1)\<close>, the arguments of \<open>setupTimer\<close>.\<close>

type_synonym request = "ulong \<times> ptr \<times> ptr \<times> bool \<times> unsigned \<times> ulong \<times> ulong"

fun setup_all :: "request list \<Rightarrow> ISR_Timer \<Rightarrow> int list \<times> ISR_Timer" where
  "setup_all [] s = ([], s)"
| "setup_all ((d, f, p, h, n, m0, m1) # rs) s =
     (case setupTimer d f p h n m0 m1 s of
        (r, s1) \<Rightarrow> (case setup_all rs s1 of (res, s2) \<Rightarrow> (r # res, s2)))"

text \<open>The calls a client can make on an initialised scheduler, with the clock values
  they read.\<close>

datatype operation =
    Register ulong ptr ptr bool unsigned ulong ulong
  | Tick ulong "nat \<Rightarrow> ulong"
  | Remove unsigned ulong
  | Restart unsigned ulong
  | ChangeInterval unsigned ulong ulong
  | Enable unsigned
  | Disable unsigned
  | Toggle unsigned
  | EnableAll
  | DisableAll

fun step :: "unsigned \<Rightarrow> operation \<Rightarrow> ISR_Timer \<Rightarrow> error + ISR_Timer" where
  "step RF (Register d f p h n m0 m1) s = Inr (snd (setupTimer d f p h n m0 m1 s))"
| "step RF (Tick now dm) s = run RF now dm s"
| "step RF (Remove numTimer now) s = Inr (deleteTimer numTimer now s)"
| "step RF (Restart numTimer now) s = Inr (restartTimer numTimer now s)"
| "step RF (ChangeInterval numTimer d now) s = Inr (snd (changeInterval numTimer d now s))"
| "step RF (Enable numTimer) s = Inr (enable numTimer s)"
| "step RF (Disable numTimer) s = Inr (disable numTimer s)"
| "step RF (Toggle numTimer) s = Inr (toggle numTimer s)"
| "step RF EnableAll s = Inr (enableAll RF s)"
| "step RF DisableAll s = Inr (disableAll RF s)"

fun exec :: "unsigned \<Rightarrow> operation list \<Rightarrow> ISR_Timer \<Rightarrow> error + ISR_Timer" where
  "exec RF [] s = Inr s"
| "exec RF (x # xs) s =
     (case step RF x s of
        Inl e \<Rightarrow> Inl e
      | Inr s1 \<Rightarrow> exec RF xs s1)"

text \<open>The invariant of the scheduler: the capacity fits the \<^verbatim>\<open>uint8_t\<close> loop counters,
  \<^verbatim>\<open>numTimers\<close> counts the slots in use, and a free slot has run zero times (it was
  zeroed by \<^verbatim>\<open>init\<close> or \<^verbatim>\<open>deleteTimer\<close>; \<^verbatim>\<open>setupTimer\<close> relies on that, it does not
  reset \<^verbatim>\<open>numRuns\<close>).\<close>

definition sched_inv :: "ISR_Timer \<Rightarrow> bool" where
  "sched_inv s \<longleftrightarrow>
     MAX_NUMBER_TIMERS s \<le> 255 \<and> numTimers s = of_nat (in_use_count s) \<and>
     (\<forall>t \<in> set (timer s). callback t = NULL \<longrightarrow> numRuns t = 0)"

text \<open>After the scan only slots in use are marked.\<close>

definition marks_ok :: "ISR_Timer \<Rightarrow> bool" where
  "marks_ok s \<longleftrightarrow> (\<forall>t \<in> set (timer s). toBeCalled t \<noteq> TIMER_DEFCALL_DONTRUN \<longrightarrow> callback t \<noteq> NULL)"

text \<open>Exactly the first \<open>k\<close> slots are in use.\<close>

definition filled :: "nat \<Rightarrow> ISR_Timer \<Rightarrow> bool" where
  "filled k s \<longleftrightarrow>
     k \<le> MAX_NUMBER_TIMERS s \<and> MAX_NUMBER_TIMERS s \<le> 255 \<and> numTimers s = of_nat k \<and>
     (\<forall>j < MAX_NUMBER_TIMERS s. callback (timer s ! j) = NULL \<longleftrightarrow> k \<le> j)"

text \<open>A timer with a finite number of runs that is still due to run, or already gone.\<close>

definition armed :: "unsigned \<Rightarrow> nat \<Rightarrow> unsigned \<Rightarrow> ISR_Timer \<Rightarrow> bool" where
  "armed RF i n s \<longleftrightarrow>
     callback (timer s ! i) = NULL \<or>
     (enabled (timer s ! i) \<and> maxNumRuns (timer s ! i) = n \<and> n \<noteq> RF \<and>
      numRuns (timer s ! i) < n)"

text \<open>The runs such a timer still has to make.\<close>

definition remaining :: "nat \<Rightarrow> ISR_Timer \<Rightarrow> nat" where
  "remaining i s =
     (if callback (timer s ! i) = NULL then 0
      else unat (maxNumRuns (timer s ! i)) - unat (numRuns (timer s ! i)))"

text \<open>The invocations made so far for slot \<open>i\<close>, oldest first.\<close>

definition slot_calls :: "nat \<Rightarrow> ISR_Timer \<Rightarrow> (nat \<times> invocation) list" where
  "slot_calls i s = filter (\<lambda>c. fst c = i) (calls s)"

text \<open>The invocation the dispatch loop makes for a slot: the callback, with its
  parameter when \<open>hasParam\<close> is set.\<close>

definition call_of :: "timer_t \<Rightarrow> invocation" where
  "call_of t = (if hasParam t then Call1 (callback t) (param t) else Call0 (callback t))"

text \<open>An operation that neither removes nor disables the timer in slot \<open>i\<close>, and does not
  register a new timer into that slot.\<close>

fun leaves :: "unsigned \<Rightarrow> nat \<Rightarrow> operation \<Rightarrow> ISR_Timer \<Rightarrow> bool" where
  "leaves RF i (Register d f p h n m0 m1) s \<longleftrightarrow> findFirstFreeSlot s \<noteq> int i"
| "leaves RF i (Remove numTimer now) s \<longleftrightarrow> unat numTimer \<noteq> i"
| "leaves RF i (Disable numTimer) s \<longleftrightarrow> unat numTimer \<noteq> i"
| "leaves RF i (Toggle numTimer) s \<longleftrightarrow> unat numTimer \<noteq> i"
| "leaves RF i DisableAll s \<longleftrightarrow> callback (timer s ! i) = NULL \<or> numRuns (timer s ! i) \<noteq> RF"
| "leaves RF i (Tick now dm) s \<longleftrightarrow> True"
| "leaves RF i (Restart numTimer now) s \<longleftrightarrow> True"
| "leaves RF i (ChangeInterval numTimer d now) s \<longleftrightarrow> True"
| "leaves RF i (Enable numTimer) s \<longleftrightarrow> True"
| "leaves RF i EnableAll s \<longleftrightarrow> True"

text \<open>A sequence of operations, run from \<open>s\<close>, each of which leaves the timer in slot \<open>i\<close>
  alone in the state it is applied to.\<close>

fun undisturbed :: "unsigned \<Rightarrow> nat \<Rightarrow> operation list \<Rightarrow> ISR_Timer \<Rightarrow> bool" where
  "undisturbed RF i [] s \<longleftrightarrow> True"
| "undisturbed RF i (x # xs) s \<longleftrightarrow>
     leaves RF i x s \<and>
     (case step RF x s of Inl e \<Rightarrow> True | Inr s1 \<Rightarrow> undisturbed RF i xs s1)"

text \<open>Whether the operation is a tick at which the timer in slot \<open>i\<close> is due: the slot is
  in use and the elapsed time has reached its period.\<close>

fun due :: "nat \<Rightarrow> operation \<Rightarrow> ISR_Timer \<Rightarrow> bool" where
  "due i (Tick now dm) s \<longleftrightarrow>
     callback (timer s ! i) \<noteq> NULL \<and> delay (timer s ! i) \<le> now - prev_millis (timer s ! i)"
| "due i (Register d f p h n m0 m1) s \<longleftrightarrow> False"
| "due i (Remove numTimer now) s \<longleftrightarrow> False"
| "due i (Restart numTimer now) s \<longleftrightarrow> False"
| "due i (ChangeInterval numTimer d now) s \<longleftrightarrow> False"
| "due i (Enable numTimer) s \<longleftrightarrow> False"
| "due i (Disable numTimer) s \<longleftrightarrow> False"
| "due i (Toggle numTimer) s \<longleftrightarrow> False"
| "due i EnableAll s \<longleftrightarrow> False"
| "due i DisableAll s \<longleftrightarrow> False"

text \<open>The number of ticks, in a sequence of operations run from \<open>s\<close>, at which the timer
  in slot \<open>i\<close> is due.\<close>

fun due_count :: "unsigned \<Rightarrow> nat \<Rightarrow> operation list \<Rightarrow> ISR_Timer \<Rightarrow> nat" where
  "due_count RF i [] s = 0"
| "due_count RF i (x # xs) s =
     (if due i x s then 1 else 0) +
     (case step RF x s of Inl e \<Rightarrow> 0 | Inr s1 \<Rightarrow> due_count RF i xs s1)"

subsection \<open>Example states\<close>

text \<open>A scheduler of capacity 2 with one timer, registered 30 ms before the clock wrapped:
  period 10 ms, three runs.\<close>

definition demo_slot :: timer_t where
  "demo_slot = \<lparr>prev_millis = - 30, callback = 4096, param = 0, hasParam = False, delay = 10,
     maxNumRuns = 3, numRuns = 0, enabled = True, toBeCalled = TIMER_DEFCALL_DONTRUN\<rparr>"

definition demo :: ISR_Timer where
  "demo = \<lparr>timer = [demo_slot, zeroed], numTimers = 1, calls = []\<rparr>"

text \<open>\<open>demo\<close> after the scan at clock value 5, 35 ms after the registration.\<close>

definition demo_scanned :: ISR_Timer where
  "demo_scanned = demo\<lparr>timer :=
     [demo_slot\<lparr>prev_millis := 0, numRuns := 1, toBeCalled := TIMER_DEFCALL_RUNONLY\<rparr>, zeroed]\<rparr>"

text \<open>A session on a scheduler of capacity 2, and the state it ends in.\<close>

definition demo_ops :: "operation list" where
  "demo_ops =
     [Register 10 4096 0 False 3 0 0, Tick 35 (\<lambda>_. 35), Register 20 8192 0 False 0 36 36,
      Disable 1, Tick 60 (\<lambda>_. 60), Remove 0 61, Remove 7 62, ChangeInterval 1 25 63,
      EnableAll, Toggle 1]"

definition demo_final :: ISR_Timer where
  "demo_final =
     \<lparr>timer = [zeroed\<lparr>prev_millis := 61\<rparr>,
                zeroed\<lparr>prev_millis := 63, callback := 8192, delay := 25\<rparr>],
      numTimers = 1, calls = [(0, Call0 4096), (0, Call0 4096)]\<rparr>"

text \<open>The timer of \<open>demo\<close> disabled, then a tick at 5, ticks at 25 and 47, and, after
  enabling it again, a tick at 52.\<close>

definition demo_idle1 :: ISR_Timer where
  "demo_idle1 = projr (run 0 5 (\<lambda>_. 5) (disable 0 demo))"

definition demo_idle2 :: ISR_Timer where
  "demo_idle2 = projr (ticks 0 [(25, \<lambda>_. 25), (47, \<lambda>_. 47)] demo_idle1)"

definition demo_idle3 :: ISR_Timer where
  "demo_idle3 = projr (run 0 52 (\<lambda>_. 52) (enable 0 demo_idle2))"

text \<open>A scheduler of capacity 3 whose slot 0 holds a run-forever timer of period 20;
  then a timer of period 10 with three runs and a parameter is registered, operations
  follow that leave it alone, and a last tick comes at 35.\<close>

definition demo_base :: ISR_Timer where
  "demo_base =
     projr (exec 0 [Register 20 8192 0 False 0 0 0]
       (init 0 (Portenta_H7_ISR_Timer [zeroed, zeroed, zeroed])))"

definition demo_reg :: ISR_Timer where
  "demo_reg = snd (setupTimer 10 4096 7 True 3 0 0 demo_base)"

definition demo_life :: "operation list" where
  "demo_life =
     [Tick 10 (\<lambda>_. 10), Register 5 12288 0 False 1 11 11, Tick 20 (\<lambda>_. 20), Disable 0,
      Tick 25 (\<lambda>_. 25), Enable 0, Restart 0 26, EnableAll]"

definition demo_mid :: ISR_Timer where
  "demo_mid = projr (exec 0 demo_life demo_reg)"

definition demo_done :: ISR_Timer where
  "demo_done = projr (run 0 35 (\<lambda>_. 35) demo_mid)"

section \<open>Loops over the slot indices\<close>

lemma fold_update_nth:
  "distinct is \<Longrightarrow> \<forall>i\<in>set is. i < length xs \<Longrightarrow> j < length xs \<Longrightarrow>
   length (fold (\<lambda>i ts. ts[i := g (ts ! i)]) is xs) = length xs \<and>
   fold (\<lambda>i ts. ts[i := g (ts ! i)]) is xs ! j = (if j \<in> set is then g (xs ! j) else xs ! j)"
proof (induction "is" arbitrary: xs)
  case Nil
  then show ?case by simp
next
  case (Cons i "is")
  have "\<forall>k\<in>set is. k < length (xs[i := g (xs ! i)])" using Cons.prems by simp
  moreover have "distinct is" "i \<notin> set is" using Cons.prems by simp_all
  moreover have "j < length (xs[i := g (xs ! i)])" using Cons.prems by simp
  ultimately show ?case
    using Cons.IH [of "xs[i := g (xs ! i)]"] Cons.prems
    by (auto simp: nth_list_update)
qed

lemma fold_update_all:
  "fold (\<lambda>i ts. ts[i := g (ts ! i)]) [0..<length xs] xs = map g xs"
proof (cases xs)
  case Nil then show ?thesis by simp
next
  case (Cons a list)
  then have len: "0 < length xs" by simp
  have L: "length (fold (\<lambda>i ts. ts[i := g (ts ! i)]) [0..<length xs] xs) = length xs"
    using fold_update_nth [of "[0..<length xs]" xs 0 g] len by simp
  show ?thesis
  proof (rule nth_equalityI)
    show "length (fold (\<lambda>i ts. ts[i := g (ts ! i)]) [0..<length xs] xs) = length (map g xs)"
      using L by simp
  next
    fix j assume "j < length (fold (\<lambda>i ts. ts[i := g (ts ! i)]) [0..<length xs] xs)"
    then have j: "j < length xs" using L by simp
    then show "fold (\<lambda>i ts. ts[i := g (ts ! i)]) [0..<length xs] xs ! j = map g xs ! j"
      using fold_update_nth [of "[0..<length xs]" xs j g] by simp
  qed
qed

lemma fold_cond_update_all:
  "fold (\<lambda>i ts. if c (ts ! i) then ts[i := f (ts ! i)] else ts) [0..<length xs] xs =
     map (\<lambda>t. if c t then f t else t) xs"
proof -
  have eq: "(\<lambda>i ts. if c (ts ! i) then ts[i := f (ts ! i)] else ts) =
            (\<lambda>i ts. ts[i := (\<lambda>t. if c t then f t else t) (ts ! i)])"
    by (intro ext) simp
  show ?thesis
    by (subst eq) (rule fold_update_all [of "\<lambda>t. if c t then f t else t"])
qed

lemma init_timer:
  "timer (init m s) = replicate (length (timer s)) (zeroed\<lparr>prev_millis := m\<rparr>)"
  using fold_update_all [of "\<lambda>_. zeroed\<lparr>prev_millis := m\<rparr>" "timer s"]
  by (simp add: init_def MAX_NUMBER_TIMERS_def map_replicate_const)

lemma enableAll_timer:
  "timer (enableAll RF s) =
     map (\<lambda>t. if callback t \<noteq> NULL \<and> numRuns t = RF then t\<lparr>enabled := True\<rparr> else t) (timer s)"
  using fold_cond_update_all [of "\<lambda>t. callback t \<noteq> NULL \<and> numRuns t = RF" "\<lambda>t. t\<lparr>enabled := True\<rparr>" "timer s"]
  by (simp add: enableAll_def MAX_NUMBER_TIMERS_def)

lemma disableAll_timer:
  "timer (disableAll RF s) =
     map (\<lambda>t. if callback t \<noteq> NULL \<and> numRuns t = RF then t\<lparr>enabled := False\<rparr> else t) (timer s)"
  using fold_cond_update_all [of "\<lambda>t. callback t \<noteq> NULL \<and> numRuns t = RF" "\<lambda>t. t\<lparr>enabled := False\<rparr>" "timer s"]
  by (simp add: disableAll_def MAX_NUMBER_TIMERS_def)

section \<open>Counting the slots in use\<close>

lemma count_update:
  "i < length xs \<Longrightarrow>
   length (filter P (xs[i := y])) + (if P (xs ! i) then 1 else 0) =
   length (filter P xs) + (if P y then 1 else 0)"
proof (induction xs arbitrary: i)
  case Nil
  then show ?case by simp
next
  case (Cons x xs)
  show ?case
  proof (cases i)
    case 0
    then show ?thesis by simp
  next
    case (Suc k)
    then have "k < length xs" using Cons.prems by simp
    from Cons.IH [OF this] show ?thesis using Suc by simp
  qed
qed

lemma count_pos: "i < length xs \<Longrightarrow> P (xs ! i) \<Longrightarrow> 0 < length (filter P xs)"
  by (metis filter_empty_conv length_greater_0_conv nth_mem)

lemma count_same:
  "map f ys = map f xs \<Longrightarrow> length (filter (\<lambda>t. P (f t)) ys) = length (filter (\<lambda>t. P (f t)) xs)"
proof -
  assume "map f ys = map f xs"
  then have "length (filter P (map f ys)) = length (filter P (map f xs))" by simp
  then show ?thesis by (simp add: filter_map comp_def)
qed

section \<open>Word arithmetic of the 32-bit fields\<close>

lemma unat_slot_index: "i \<le> 255 \<Longrightarrow> unat (of_nat i :: 32 word) = i"
  by (simp add: unat_of_nat)

lemma sint_small: "k \<le> 255 \<Longrightarrow> sint (of_nat k :: 32 word) = int k"
  by (simp add: signed_of_nat signed_take_bit_int_eq_self)

lemma small_word_eq_0:
  assumes "k \<le> 255"
  shows "(of_nat k :: 32 word) = 0 \<longleftrightarrow> k = 0"
proof
  assume "(of_nat k :: 32 word) = 0"
  then have "unat (of_nat k :: 32 word) = 0" by simp
  then show "k = 0" using unat_slot_index [OF assms] by simp
next
  assume "k = 0"
  then show "(of_nat k :: 32 word) = 0" by simp
qed

lemma word_pred_of_nat: "0 < k \<Longrightarrow> (of_nat k :: 32 word) - 1 = of_nat (k - 1)"
  by (cases k) simp_all

lemma unat_inc: "(a :: 32 word) < b \<Longrightarrow> unat (a + 1) = unat a + 1"
  by (metis (no_types, lifting) add.commute add_0 inc_i inc_le
    unat_plus_simple unsigned_0 unsigned_1 word_gt_0)

lemma advance_exact:
  fixes e d :: "32 word"
  shows "unat (d * (e div d)) = unat d * (unat e div unat d)"
proof -
  have "unat d * (unat e div unat d) \<le> unat e" by simp
  also have "unat e < 2 ^ LENGTH(32)" by (rule unsigned_less)
  finally have "unat d * unat (e div d) < 2 ^ LENGTH(32)" by (simp add: unat_div)
  then show ?thesis by (simp add: unat_mult_lem [THEN iffD1] unat_div)
qed

lemma unat_minus_one_32: "unat (- 1 :: 32 word) = 2 ^ 32 - 1"
  by (simp add: unsigned_minus_1_eq_mask mask_eq_exp_minus_1)

section \<open>The scan of one slot\<close>

lemma scan_slot_free:
  "callback t = NULL \<Longrightarrow> scan_slot RF now t = Inr (t\<lparr>toBeCalled := TIMER_DEFCALL_DONTRUN\<rparr>)"
  by (simp add: scan_slot_def)

lemma scan_slot_not_due:
  "\<not> delay t \<le> now - prev_millis t \<Longrightarrow>
   scan_slot RF now t = Inr (t\<lparr>toBeCalled := TIMER_DEFCALL_DONTRUN\<rparr>)"
  by (simp add: scan_slot_def Let_def)

lemma scan_slot_Inl_iff:
  "scan_slot RF now t = Inl e \<longleftrightarrow> callback t \<noteq> NULL \<and> delay t = 0"
  by (cases e) (simp add: scan_slot_def Let_def)

lemma scan_slot_Inr_iff:
  "(\<exists>t'. scan_slot RF now t = Inr t') \<longleftrightarrow> (callback t \<noteq> NULL \<longrightarrow> delay t \<noteq> 0)"
proof (cases "scan_slot RF now t")
  case (Inl e)
  then show ?thesis using scan_slot_Inl_iff [of RF now t e] by simp
next
  case (Inr t')
  have "scan_slot RF now t \<noteq> Inl DivisionByZero" using Inr by simp
  then show ?thesis using Inr scan_slot_Inl_iff [of RF now t DivisionByZero] by auto
qed

lemma scan_slot_fields:
  assumes "scan_slot RF now t = Inr t'"
  shows "callback t' = callback t" and "param t' = param t" and "hasParam t' = hasParam t"
    and "delay t' = delay t" and "maxNumRuns t' = maxNumRuns t" and "enabled t' = enabled t"
  using assms by (auto simp: scan_slot_def Let_def split: if_splits)

lemma scan_slot_prev:
  assumes "scan_slot RF now t = Inr t'"
  shows "prev_millis t' =
           (if callback t \<noteq> NULL \<and> delay t \<le> now - prev_millis t
            then prev_millis t + delay t * ((now - prev_millis t) div delay t)
            else prev_millis t)"
  using assms by (auto simp: scan_slot_def Let_def split: if_splits)

lemma scan_slot_mark:
  assumes "scan_slot RF now t = Inr t'" and "toBeCalled t' \<noteq> TIMER_DEFCALL_DONTRUN"
  shows "callback t \<noteq> NULL \<and> enabled t \<and> delay t \<le> now - prev_millis t"
  using assms by (auto simp: scan_slot_def Let_def split: if_splits)

lemma scan_slot_numRuns:
  assumes "scan_slot RF now t = Inr t'"
  shows "numRuns t' =
           (if toBeCalled t' \<noteq> TIMER_DEFCALL_DONTRUN \<and> maxNumRuns t \<noteq> RF
            then numRuns t + 1 else numRuns t)"
  using assms by (auto simp: scan_slot_def Let_def split: if_splits)

lemma scan_slot_disabled:
  assumes "scan_slot RF now t = Inr t'" and "\<not> enabled t"
  shows "t' = t\<lparr>toBeCalled := TIMER_DEFCALL_DONTRUN,
                 prev_millis := (if callback t \<noteq> NULL \<and> delay t \<le> now - prev_millis t
                   then prev_millis t + delay t * ((now - prev_millis t) div delay t)
                   else prev_millis t)\<rparr>"
  using assms by (auto simp: scan_slot_def Let_def split: if_splits)

lemma scan_slot_finite:
  assumes "scan_slot RF now t = Inr t'" and "callback t \<noteq> NULL" and "enabled t"
    and "maxNumRuns t \<noteq> RF" and "numRuns t < maxNumRuns t"
  shows "(toBeCalled t' = TIMER_DEFCALL_DONTRUN \<and> numRuns t' = numRuns t) \<or>
         (toBeCalled t' = TIMER_DEFCALL_RUNONLY \<and> numRuns t' = numRuns t + 1 \<and>
            numRuns t + 1 < maxNumRuns t) \<or>
         (toBeCalled t' = TIMER_DEFCALL_RUNANDDEL \<and> numRuns t' = numRuns t + 1 \<and>
            maxNumRuns t \<le> numRuns t + 1)"
  using assms by (auto simp: scan_slot_def Let_def split: if_splits)

lemma scan_slot_forever:
  assumes "scan_slot RF now t = Inr t'" and "callback t \<noteq> NULL" and "enabled t"
    and "delay t \<le> now - prev_millis t" and "maxNumRuns t = RF"
  shows "toBeCalled t' = TIMER_DEFCALL_RUNONLY"
  using assms by (auto simp: scan_slot_def Let_def split: if_splits)

section \<open>The scan loop\<close>

lemma scan_loop_Inr:
  "distinct is \<Longrightarrow> \<forall>i\<in>set is. i < length ts \<Longrightarrow> scan_loop RF now is ts = Inr ts' \<Longrightarrow>
   length ts' = length ts \<and>
   (\<forall>j<length ts. if j \<in> set is then scan_slot RF now (ts ! j) = Inr (ts' ! j)
                   else ts' ! j = ts ! j)"
proof (induction "is" arbitrary: ts)
  case Nil
  then show ?case by simp
next
  case (Cons i "is")
  from Cons.prems(3) obtain t where t: "scan_slot RF now (ts ! i) = Inr t"
    and rest: "scan_loop RF now is (ts[i := t]) = Inr ts'"
    by (auto split: sum.splits)
  have d: "distinct is" and ni: "i \<notin> set is" and i: "i < length ts"
    using Cons.prems by simp_all
  have b: "\<forall>k\<in>set is. k < length (ts[i := t])" using Cons.prems by simp
  note IH = Cons.IH [OF d b rest]
  show ?case
  proof (intro conjI allI impI)
    show "length ts' = length ts" using IH by simp
  next
    fix j assume j: "j < length ts"
    then have j': "j < length (ts[i := t])" by simp
    from IH j' have *: "if j \<in> set is then scan_slot RF now (ts[i := t] ! j) = Inr (ts' ! j)
        else ts' ! j = ts[i := t] ! j" by blast
    show "if j \<in> set (i # is) then scan_slot RF now (ts ! j) = Inr (ts' ! j)
          else ts' ! j = ts ! j"
    proof (cases "j = i")
      case True
      then show ?thesis using * ni t i by (auto split: if_splits)
    next
      case False
      then have "ts[i := t] ! j = ts ! j" by simp
      then show ?thesis using * False by (auto split: if_splits)
    qed
  qed
qed

lemma scan_loop_total:
  "distinct is \<Longrightarrow> \<forall>i\<in>set is. i < length ts \<Longrightarrow>
   \<forall>i\<in>set is. \<exists>t. scan_slot RF now (ts ! i) = Inr t \<Longrightarrow>
   \<exists>ts'. scan_loop RF now is ts = Inr ts'"
proof (induction "is" arbitrary: ts)
  case Nil
  then show ?case by simp
next
  case (Cons i "is")
  from Cons.prems(3) obtain t where t: "scan_slot RF now (ts ! i) = Inr t" by auto
  have d: "distinct is" and ni: "i \<notin> set is" using Cons.prems by simp_all
  have b: "\<forall>k\<in>set is. k < length (ts[i := t])" using Cons.prems by simp
  have "\<forall>k\<in>set is. \<exists>u. scan_slot RF now (ts[i := t] ! k) = Inr u"
  proof
    fix k assume k: "k \<in> set is"
    then have "k \<noteq> i" using ni by auto
    then have "ts[i := t] ! k = ts ! k" by simp
    then show "\<exists>u. scan_slot RF now (ts[i := t] ! k) = Inr u" using Cons.prems(3) k by simp
  qed
  from Cons.IH [OF d b this] show ?case using t by simp
qed

lemma scan_Inr:
  assumes "scan RF now s = Inr s1"
  shows "length (timer s1) = length (timer s)" and "numTimers s1 = numTimers s"
    and "calls s1 = calls s"
    and "\<forall>j<length (timer s). scan_slot RF now (timer s ! j) = Inr (timer s1 ! j)"
proof -
  from assms obtain ts where ts: "scan_loop RF now [0..<length (timer s)] (timer s) = Inr ts"
    and s1: "s1 = s\<lparr>timer := ts\<rparr>"
    by (auto simp: scan_def MAX_NUMBER_TIMERS_def split: sum.splits)
  have L: "length ts = length (timer s) \<and>
     (\<forall>j<length (timer s). if j \<in> set [0..<length (timer s)]
        then scan_slot RF now (timer s ! j) = Inr (ts ! j) else ts ! j = timer s ! j)"
    by (rule scan_loop_Inr [OF _ _ ts]) simp_all
  show "length (timer s1) = length (timer s)" using L s1 by simp
  show "numTimers s1 = numTimers s" using s1 by simp
  show "calls s1 = calls s" using s1 by simp
  show "\<forall>j<length (timer s). scan_slot RF now (timer s ! j) = Inr (timer s1 ! j)"
    using L s1 by simp
qed

lemma scan_Inl_iff:
  "scan RF now s = Inl DivisionByZero \<longleftrightarrow>
     (\<exists>i<MAX_NUMBER_TIMERS s. callback (timer s ! i) \<noteq> NULL \<and> delay (timer s ! i) = 0)"
proof
  assume L: "scan RF now s = Inl DivisionByZero"
  show "\<exists>i<MAX_NUMBER_TIMERS s. callback (timer s ! i) \<noteq> NULL \<and> delay (timer s ! i) = 0"
  proof (rule ccontr)
    assume "\<not> ?thesis"
    then have "\<forall>i\<in>set [0..<length (timer s)]. \<exists>t. scan_slot RF now (timer s ! i) = Inr t"
      using scan_slot_Inr_iff [of RF now] by (auto simp: MAX_NUMBER_TIMERS_def)
    then have "\<exists>ts'. scan_loop RF now [0..<length (timer s)] (timer s) = Inr ts'"
      by (intro scan_loop_total) simp_all
    then show False using L by (auto simp: scan_def MAX_NUMBER_TIMERS_def)
  qed
next
  assume "\<exists>i<MAX_NUMBER_TIMERS s. callback (timer s ! i) \<noteq> NULL \<and> delay (timer s ! i) = 0"
  then obtain i where i: "i < length (timer s)" and c: "callback (timer s ! i) \<noteq> NULL"
    and d: "delay (timer s ! i) = 0" by (auto simp: MAX_NUMBER_TIMERS_def)
  show "scan RF now s = Inl DivisionByZero"
  proof (cases "scan RF now s")
    case (Inl e)
    then show ?thesis by (cases e) simp
  next
    case (Inr s1)
    from scan_Inr(4) [OF Inr] i have "scan_slot RF now (timer s ! i) = Inr (timer s1 ! i)" by simp
    then show ?thesis using scan_slot_Inl_iff [of RF now "timer s ! i" DivisionByZero] c d by simp
  qed
qed

section \<open>Deleting and dispatching\<close>

lemma deleteTimer_calls: "calls (deleteTimer timerId now s) = calls s"
  by (simp add: deleteTimer_def)

lemma deleteTimer_length: "length (timer (deleteTimer timerId now s)) = length (timer s)"
  by (simp add: deleteTimer_def)

lemma deleteTimer_other:
  "j \<noteq> unat timerId \<Longrightarrow> timer (deleteTimer timerId now s) ! j = timer s ! j"
  by (simp add: deleteTimer_def)

lemma deleteTimer_in_use:
  assumes "unat timerId < length (timer s)" and "numTimers s \<noteq> 0"
    and "callback (timer s ! unat timerId) \<noteq> NULL"
  shows "deleteTimer timerId now s =
           s\<lparr>timer := (timer s)[unat timerId := zeroed\<lparr>prev_millis := now\<rparr>],
             numTimers := numTimers s - 1\<rparr>"
  using assms by (simp add: deleteTimer_def MAX_NUMBER_TIMERS_def)

lemma fired_append:
  "fired j (s\<lparr>calls := calls s @ [(i, c)]\<rparr>) = fired j s + (if j = i then 1 else 0)"
  by (simp add: fired_def)

lemma dispatch_slot_length:
  "length (timer (dispatch_slot dm i s)) = length (timer s)"
  by (simp add: dispatch_slot_def Let_def deleteTimer_length)

lemma dispatch_slot_fired:
  "fired j (dispatch_slot dm i s) =
     fired j s + (if j = i \<and> toBeCalled (timer s ! i) \<noteq> TIMER_DEFCALL_DONTRUN then 1 else 0)"
proof -
  have "fired k (deleteTimer timerId now s1) = fired k s1" for k timerId now s1
    by (simp add: fired_def deleteTimer_calls)
  then show ?thesis
    by (simp add: dispatch_slot_def Let_def fired_append)
qed

lemma dispatch_slot_other:
  assumes "i \<le> 255" and "j \<noteq> i"
  shows "timer (dispatch_slot dm i s) ! j = timer s ! j"
proof -
  have "j \<noteq> unat (of_nat i :: 32 word)" using assms by (simp add: unat_slot_index)
  then show ?thesis
    by (simp add: dispatch_slot_def Let_def deleteTimer_other)
qed

lemma dispatch_slot_keep:
  "toBeCalled (timer s ! i) \<noteq> TIMER_DEFCALL_RUNANDDEL \<Longrightarrow>
   timer (dispatch_slot dm i s) = timer s \<and> numTimers (dispatch_slot dm i s) = numTimers s"
  by (simp add: dispatch_slot_def Let_def)

lemma dispatch_fold_basic:
  "distinct is \<Longrightarrow> \<forall>i\<in>set is. i < length (timer s) \<Longrightarrow> length (timer s) \<le> 255 \<Longrightarrow>
   length (timer (fold (dispatch_slot dm) is s)) = length (timer s) \<and>
   (\<forall>j. fired j (fold (dispatch_slot dm) is s) =
        fired j s + (if j \<in> set is \<and> toBeCalled (timer s ! j) \<noteq> TIMER_DEFCALL_DONTRUN
                     then 1 else 0)) \<and>
   (\<forall>j<length (timer s). j \<notin> set is \<or> toBeCalled (timer s ! j) \<noteq> TIMER_DEFCALL_RUNANDDEL \<longrightarrow>
        timer (fold (dispatch_slot dm) is s) ! j = timer s ! j)"
proof (induction "is" arbitrary: s)
  case Nil
  then show ?case by simp
next
  case (Cons i "is")
  define s1 where "s1 = dispatch_slot dm i s"
  have i: "i < length (timer s)" "i \<le> 255" and ni: "i \<notin> set is" and d: "distinct is"
    using Cons.prems by auto
  have len1: "length (timer s1) = length (timer s)"
    by (simp add: s1_def dispatch_slot_length)
  have other: "timer s1 ! j = timer s ! j" if "j \<noteq> i" for j
    using that i by (simp add: s1_def dispatch_slot_other)
  have b: "\<forall>k\<in>set is. k < length (timer s1)" using Cons.prems len1 by simp
  have l: "length (timer s1) \<le> 255" using Cons.prems len1 by simp
  note IH = Cons.IH [OF d b l]
  have f: "fold (dispatch_slot dm) (i # is) s = fold (dispatch_slot dm) is s1"
    by (simp add: s1_def)
  show ?case unfolding f
  proof (intro conjI allI impI)
    show "length (timer (fold (dispatch_slot dm) is s1)) = length (timer s)"
      using IH len1 by simp
  next
    fix j
    have "fired j (fold (dispatch_slot dm) is s1) =
        fired j s1 + (if j \<in> set is \<and> toBeCalled (timer s1 ! j) \<noteq> TIMER_DEFCALL_DONTRUN
                      then 1 else 0)" using IH by blast
    moreover have "fired j s1 = fired j s +
        (if j = i \<and> toBeCalled (timer s ! i) \<noteq> TIMER_DEFCALL_DONTRUN then 1 else 0)"
      by (simp add: s1_def dispatch_slot_fired)
    moreover have "timer s1 ! j = timer s ! j" if "j \<in> set is"
    proof -
      from that ni have "j \<noteq> i" by auto
      then show ?thesis by (rule other)
    qed
    ultimately show "fired j (fold (dispatch_slot dm) is s1) =
        fired j s + (if j \<in> set (i # is) \<and> toBeCalled (timer s ! j) \<noteq> TIMER_DEFCALL_DONTRUN
                     then 1 else 0)"
      using ni by auto
  next
    fix j assume j: "j < length (timer s)"
      and c: "j \<notin> set (i # is) \<or> toBeCalled (timer s ! j) \<noteq> TIMER_DEFCALL_RUNANDDEL"
    have j1: "j < length (timer s1)" using j len1 by simp
    show "timer (fold (dispatch_slot dm) is s1) ! j = timer s ! j"
    proof (cases "j = i")
      case True
      then have "toBeCalled (timer s ! i) \<noteq> TIMER_DEFCALL_RUNANDDEL" using c by simp
      then have "timer s1 = timer s" by (simp add: s1_def dispatch_slot_keep)
      moreover have "timer (fold (dispatch_slot dm) is s1) ! j = timer s1 ! j"
        using IH j1 True ni by blast
      ultimately show ?thesis by simp
    next
      case False
      then have e: "timer s1 ! j = timer s ! j" by (rule other)
      then have "j \<notin> set is \<or> toBeCalled (timer s1 ! j) \<noteq> TIMER_DEFCALL_RUNANDDEL"
        using c by auto
      then have "timer (fold (dispatch_slot dm) is s1) ! j = timer s1 ! j"
        using IH j1 by blast
      then show ?thesis using e by simp
    qed
  qed
qed

section \<open>The invariant under dispatch\<close>

lemma in_use_count_le: "in_use_count s \<le> length (timer s)"
  by (simp add: in_use_count_def)

lemma sched_inv_delete:
  assumes inv: "sched_inv s" and i: "i < length (timer s)"
    and c: "callback (timer s ! i) \<noteq> NULL"
  shows "deleteTimer (of_nat i) now s =
           s\<lparr>timer := (timer s)[i := zeroed\<lparr>prev_millis := now\<rparr>],
             numTimers := numTimers s - 1\<rparr>"
    and "sched_inv (deleteTimer (of_nat i) now s)"
proof -
  have cap: "length (timer s) \<le> 255" using inv by (simp add: sched_inv_def MAX_NUMBER_TIMERS_def)
  have u: "unat (of_nat i :: 32 word) = i" using i cap by (simp add: unat_slot_index)
  have pos: "0 < in_use_count s" unfolding in_use_count_def using i c by (rule count_pos)
  have small: "in_use_count s \<le> 255" using in_use_count_le [of s] cap by simp
  have nt: "numTimers s = of_nat (in_use_count s)" using inv by (simp add: sched_inv_def)
  have "(of_nat (in_use_count s) :: 32 word) \<noteq> 0"
    using small_word_eq_0 [OF small] pos by simp
  then have nz: "numTimers s \<noteq> 0" unfolding nt .
  show eq: "deleteTimer (of_nat i) now s =
           s\<lparr>timer := (timer s)[i := zeroed\<lparr>prev_millis := now\<rparr>],
             numTimers := numTimers s - 1\<rparr>"
    using deleteTimer_in_use [of "of_nat i" s now] u i nz c by simp
  have "length (filter (\<lambda>t. callback t \<noteq> NULL) ((timer s)[i := zeroed\<lparr>prev_millis := now\<rparr>]))
          + (if callback (timer s ! i) \<noteq> NULL then 1 else 0) =
        length (filter (\<lambda>t. callback t \<noteq> NULL) (timer s))
          + (if callback (zeroed\<lparr>prev_millis := now\<rparr>) \<noteq> NULL then 1 else 0)"
    using i by (rule count_update)
  then have cnt: "in_use_count (deleteTimer (of_nat i) now s) = in_use_count s - 1"
    using c by (simp add: eq in_use_count_def zeroed_def)
  have free: "\<forall>t\<in>set (timer s). callback t = NULL \<longrightarrow> numRuns t = 0"
    using inv by (simp add: sched_inv_def)
  have "set ((timer s)[i := zeroed\<lparr>prev_millis := now\<rparr>])
          \<subseteq> insert (zeroed\<lparr>prev_millis := now\<rparr>) (set (timer s))"
    by (rule set_update_subset_insert)
  then have free': "\<forall>t\<in>set (timer (deleteTimer (of_nat i) now s)).
      callback t = NULL \<longrightarrow> numRuns t = 0"
    using free by (auto simp: eq zeroed_def)
  have "numTimers s - 1 = of_nat (in_use_count s - 1)"
    unfolding nt by (rule word_pred_of_nat [OF pos])
  moreover have "numTimers (deleteTimer (of_nat i) now s) = numTimers s - 1"
    by (simp add: eq)
  ultimately have "numTimers (deleteTimer (of_nat i) now s) =
      of_nat (in_use_count (deleteTimer (of_nat i) now s))"
    by (simp only: cnt)
  moreover have "MAX_NUMBER_TIMERS (deleteTimer (of_nat i) now s) \<le> 255"
    using cap by (simp add: MAX_NUMBER_TIMERS_def deleteTimer_length)
  ultimately show "sched_inv (deleteTimer (of_nat i) now s)"
    using free' unfolding sched_inv_def by blast
qed

lemma sched_inv_calls:
  "sched_inv (s\<lparr>calls := cs\<rparr>) = sched_inv s"
  by (simp add: sched_inv_def MAX_NUMBER_TIMERS_def in_use_count_def)

lemma dispatch_slot_inv:
  assumes inv: "sched_inv s" and m: "marks_ok s" and i: "i < length (timer s)"
  shows "sched_inv (dispatch_slot dm i s)" and "marks_ok (dispatch_slot dm i s)"
    and "toBeCalled (timer s ! i) = TIMER_DEFCALL_RUNANDDEL \<longrightarrow>
           timer (dispatch_slot dm i s) ! i = zeroed\<lparr>prev_millis := dm i\<rparr>
           \<and> numTimers (dispatch_slot dm i s) = numTimers s - 1"
proof -
  let ?c = "(i, if hasParam (timer s ! i) then Call1 (callback (timer s ! i)) (param (timer s ! i))
                else Call0 (callback (timer s ! i)))"
  let ?s1 = "s\<lparr>calls := calls s @ [?c]\<rparr>"
  have inv1: "sched_inv ?s1" using inv by (simp add: sched_inv_calls)
  have i1: "i < length (timer ?s1)" using i by simp
  show "sched_inv (dispatch_slot dm i s)"
  proof (cases "toBeCalled (timer s ! i) = TIMER_DEFCALL_RUNANDDEL")
    case True
    then have c: "callback (timer ?s1 ! i) \<noteq> NULL" using m i by (simp add: marks_ok_def)
    have "dispatch_slot dm i s = deleteTimer (of_nat i) (dm i) ?s1"
      using True by (simp add: dispatch_slot_def Let_def)
    then show ?thesis using sched_inv_delete(2) [OF inv1 i1 c] by simp
  next
    case False
    then have "dispatch_slot dm i s = s \<or> dispatch_slot dm i s = ?s1"
      by (simp add: dispatch_slot_def Let_def)
    then show ?thesis using inv inv1 by auto
  qed
  show del: "toBeCalled (timer s ! i) = TIMER_DEFCALL_RUNANDDEL \<longrightarrow>
           timer (dispatch_slot dm i s) ! i = zeroed\<lparr>prev_millis := dm i\<rparr>
           \<and> numTimers (dispatch_slot dm i s) = numTimers s - 1"
  proof
    assume True: "toBeCalled (timer s ! i) = TIMER_DEFCALL_RUNANDDEL"
    then have c: "callback (timer ?s1 ! i) \<noteq> NULL" using m i by (simp add: marks_ok_def)
    have "dispatch_slot dm i s = deleteTimer (of_nat i) (dm i) ?s1"
      using True by (simp add: dispatch_slot_def Let_def)
    then show "timer (dispatch_slot dm i s) ! i = zeroed\<lparr>prev_millis := dm i\<rparr>
           \<and> numTimers (dispatch_slot dm i s) = numTimers s - 1"
      using sched_inv_delete(1) [OF inv1 i1 c] i by simp
  qed
  show "marks_ok (dispatch_slot dm i s)"
  proof (cases "toBeCalled (timer s ! i) = TIMER_DEFCALL_RUNANDDEL")
    case True
    then have c: "callback (timer ?s1 ! i) \<noteq> NULL" using m i by (simp add: marks_ok_def)
    have e: "dispatch_slot dm i s = deleteTimer (of_nat i) (dm i) ?s1"
      using True by (simp add: dispatch_slot_def Let_def)
    have "set ((timer s)[i := zeroed\<lparr>prev_millis := dm i\<rparr>])
          \<subseteq> insert (zeroed\<lparr>prev_millis := dm i\<rparr>) (set (timer s))"
      by (rule set_update_subset_insert)
    then show ?thesis
      using m sched_inv_delete(1) [OF inv1 i1 c] e by (auto simp: marks_ok_def zeroed_def)
  next
    case False
    then have "timer (dispatch_slot dm i s) = timer s" by (simp add: dispatch_slot_keep)
    then show ?thesis using m by (simp add: marks_ok_def)
  qed
qed

lemma dispatch_fold_inv:
  "distinct is \<Longrightarrow> \<forall>i\<in>set is. i < length (timer s) \<Longrightarrow> sched_inv s \<Longrightarrow> marks_ok s \<Longrightarrow>
   sched_inv (fold (dispatch_slot dm) is s) \<and> marks_ok (fold (dispatch_slot dm) is s) \<and>
   (\<forall>j\<in>set is. toBeCalled (timer s ! j) = TIMER_DEFCALL_RUNANDDEL \<longrightarrow>
        timer (fold (dispatch_slot dm) is s) ! j = zeroed\<lparr>prev_millis := dm j\<rparr>)"
proof (induction "is" arbitrary: s)
  case Nil
  then show ?case by simp
next
  case (Cons i "is")
  define s1 where "s1 = dispatch_slot dm i s"
  have i: "i < length (timer s)" and ni: "i \<notin> set is" and d: "distinct is"
    using Cons.prems by auto
  have cap: "length (timer s) \<le> 255"
    using Cons.prems by (simp add: sched_inv_def MAX_NUMBER_TIMERS_def)
  have len1: "length (timer s1) = length (timer s)"
    by (simp add: s1_def dispatch_slot_length)
  have inv1: "sched_inv s1" and m1: "marks_ok s1"
    unfolding s1_def using dispatch_slot_inv [OF Cons.prems(3,4) i] by simp_all
  have del1: "toBeCalled (timer s ! i) = TIMER_DEFCALL_RUNANDDEL \<longrightarrow>
           timer s1 ! i = zeroed\<lparr>prev_millis := dm i\<rparr>"
    unfolding s1_def using dispatch_slot_inv(3) [OF Cons.prems(3,4) i] by simp
  have other: "timer s1 ! j = timer s ! j" if "j \<noteq> i" for j
    using that i cap by (simp add: s1_def dispatch_slot_other)
  have b: "\<forall>k\<in>set is. k < length (timer s1)" using Cons.prems len1 by simp
  note IH = Cons.IH [OF d b inv1 m1]
  have f: "fold (dispatch_slot dm) (i # is) s = fold (dispatch_slot dm) is s1"
    by (simp add: s1_def)
  have keep: "timer (fold (dispatch_slot dm) is s1) ! i = timer s1 ! i"
    using dispatch_fold_basic [OF d b, of dm] ni i len1 cap by simp
  show ?case unfolding f
  proof (intro conjI ballI impI)
    show "sched_inv (fold (dispatch_slot dm) is s1)" using IH by simp
    show "marks_ok (fold (dispatch_slot dm) is s1)" using IH by simp
  next
    fix j assume j: "j \<in> set (i # is)"
      and r: "toBeCalled (timer s ! j) = TIMER_DEFCALL_RUNANDDEL"
    show "timer (fold (dispatch_slot dm) is s1) ! j = zeroed\<lparr>prev_millis := dm j\<rparr>"
    proof (cases "j = i")
      case True
      then show ?thesis using keep del1 r by simp
    next
      case False
      then have "j \<in> set is" using j by simp
      moreover have "toBeCalled (timer s1 ! j) = TIMER_DEFCALL_RUNANDDEL"
        using other [OF False] r by simp
      ultimately show ?thesis using IH by blast
    qed
  qed
qed

section \<open>One tick\<close>

lemma run_Inr:
  "run RF now dm s = Inr s' \<Longrightarrow> \<exists>s1. scan RF now s = Inr s1 \<and> s' = dispatch dm s1"
  by (auto simp: run_def split: sum.splits)

lemma run_Inl_iff:
  "run RF now dm s = Inl DivisionByZero \<longleftrightarrow> scan RF now s = Inl DivisionByZero"
  by (auto simp: run_def split: sum.splits)

lemma scan_in_use_count:
  assumes "scan RF now s = Inr s1"
  shows "in_use_count s1 = in_use_count s"
proof -
  have "map callback (timer s1) = map callback (timer s)"
  proof (rule nth_equalityI)
    show "length (map callback (timer s1)) = length (map callback (timer s))"
      using scan_Inr(1) [OF assms] by simp
  next
    fix j assume "j < length (map callback (timer s1))"
    then have j: "j < length (timer s)" using scan_Inr(1) [OF assms] by simp
    then have "scan_slot RF now (timer s ! j) = Inr (timer s1 ! j)"
      using scan_Inr(4) [OF assms] by simp
    then have "callback (timer s1 ! j) = callback (timer s ! j)" by (rule scan_slot_fields)
    then show "map callback (timer s1) ! j = map callback (timer s) ! j"
      using j scan_Inr(1) [OF assms] by simp
  qed
  then show ?thesis
    unfolding in_use_count_def by (rule count_same [where P = "\<lambda>c. c \<noteq> NULL"])
qed

lemma scan_marks_ok:
  assumes "scan RF now s = Inr s1"
  shows "marks_ok s1"
  unfolding marks_ok_def
proof (intro ballI impI)
  fix t assume "t \<in> set (timer s1)" and m: "toBeCalled t \<noteq> TIMER_DEFCALL_DONTRUN"
  then obtain j where j: "j < length (timer s1)" and t: "t = timer s1 ! j"
    by (auto simp: in_set_conv_nth)
  have sl: "scan_slot RF now (timer s ! j) = Inr t"
    using scan_Inr(4) [OF assms] scan_Inr(1) [OF assms] j t by simp
  have "callback (timer s ! j) \<noteq> NULL" using scan_slot_mark [OF sl m] by simp
  then show "callback t \<noteq> NULL" using scan_slot_fields(1) [OF sl] by simp
qed

lemma scan_inv:
  assumes inv: "sched_inv s" and sc: "scan RF now s = Inr s1"
  shows "sched_inv s1"
proof -
  have free: "\<forall>t\<in>set (timer s1). callback t = NULL \<longrightarrow> numRuns t = 0"
  proof (intro ballI impI)
    fix t assume "t \<in> set (timer s1)" and c: "callback t = NULL"
    then obtain j where j: "j < length (timer s)" and t: "t = timer s1 ! j"
      using scan_Inr(1) [OF sc] by (auto simp: in_set_conv_nth)
    have sl: "scan_slot RF now (timer s ! j) = Inr t"
      using scan_Inr(4) [OF sc] j t by simp
    have c0: "callback (timer s ! j) = NULL" using scan_slot_fields(1) [OF sl] c by simp
    then have "numRuns (timer s ! j) = 0" using inv j by (simp add: sched_inv_def)
    moreover have "t = (timer s ! j)\<lparr>toBeCalled := TIMER_DEFCALL_DONTRUN\<rparr>"
      using sl scan_slot_free [OF c0, of RF now] by simp
    ultimately show "numRuns t = 0" by simp
  qed
  have "numTimers s1 = of_nat (in_use_count s1)"
    using inv scan_Inr(2) [OF sc] scan_in_use_count [OF sc] by (simp add: sched_inv_def)
  moreover have "MAX_NUMBER_TIMERS s1 \<le> 255"
    using inv scan_Inr(1) [OF sc] by (simp add: sched_inv_def MAX_NUMBER_TIMERS_def)
  ultimately show ?thesis using free unfolding sched_inv_def by blast
qed

lemma run_basic:
  assumes r: "run RF now dm s = Inr s'" and cap: "length (timer s) \<le> 255"
    and j: "j < length (timer s)"
  shows "\<exists>t'. scan_slot RF now (timer s ! j) = Inr t' \<and>
           fired j s' = fired j s + (if toBeCalled t' = TIMER_DEFCALL_DONTRUN then 0 else 1) \<and>
           (toBeCalled t' \<noteq> TIMER_DEFCALL_RUNANDDEL \<longrightarrow> timer s' ! j = t') \<and>
           length (timer s') = length (timer s)"
proof -
  from run_Inr [OF r] obtain s1 where sc: "scan RF now s = Inr s1" and s': "s' = dispatch dm s1"
    by blast
  have len: "length (timer s1) = length (timer s)" by (rule scan_Inr(1) [OF sc])
  have sl: "scan_slot RF now (timer s ! j) = Inr (timer s1 ! j)"
    using scan_Inr(4) [OF sc] j by simp
  have B: "length (timer (fold (dispatch_slot dm) [0..<length (timer s1)] s1)) = length (timer s1) \<and>
   (\<forall>j. fired j (fold (dispatch_slot dm) [0..<length (timer s1)] s1) =
        fired j s1 + (if j \<in> set [0..<length (timer s1)] \<and>
                         toBeCalled (timer s1 ! j) \<noteq> TIMER_DEFCALL_DONTRUN then 1 else 0)) \<and>
   (\<forall>j<length (timer s1). j \<notin> set [0..<length (timer s1)] \<or>
        toBeCalled (timer s1 ! j) \<noteq> TIMER_DEFCALL_RUNANDDEL \<longrightarrow>
        timer (fold (dispatch_slot dm) [0..<length (timer s1)] s1) ! j = timer s1 ! j)"
    by (rule dispatch_fold_basic) (simp_all add: len cap)
  have d: "s' = fold (dispatch_slot dm) [0..<length (timer s1)] s1"
    by (simp add: s' dispatch_def MAX_NUMBER_TIMERS_def)
  have f1: "fired j s1 = fired j s" using scan_Inr(3) [OF sc] by (simp add: fired_def)
  have "fired j s' = fired j s + (if toBeCalled (timer s1 ! j) = TIMER_DEFCALL_DONTRUN then 0 else 1)"
    using B j len f1 unfolding d [symmetric] by simp
  moreover have "toBeCalled (timer s1 ! j) \<noteq> TIMER_DEFCALL_RUNANDDEL \<longrightarrow> timer s' ! j = timer s1 ! j"
    using B j len unfolding d [symmetric] by simp
  moreover have "length (timer s') = length (timer s)"
    using B len unfolding d [symmetric] by simp
  ultimately show ?thesis using sl by blast
qed

lemma run_basicE:
  assumes "run RF now dm s = Inr s'" and "length (timer s) \<le> 255" and "j < length (timer s)"
  obtains t' where "scan_slot RF now (timer s ! j) = Inr t'"
    and "fired j s' = fired j s + (if toBeCalled t' = TIMER_DEFCALL_DONTRUN then 0 else 1)"
    and "toBeCalled t' \<noteq> TIMER_DEFCALL_RUNANDDEL \<Longrightarrow> timer s' ! j = t'"
    and "length (timer s') = length (timer s)"
proof -
  from run_basic [OF assms] obtain t' where
    "scan_slot RF now (timer s ! j) = Inr t' \<and>
       fired j s' = fired j s + (if toBeCalled t' = TIMER_DEFCALL_DONTRUN then 0 else 1) \<and>
       (toBeCalled t' \<noteq> TIMER_DEFCALL_RUNANDDEL \<longrightarrow> timer s' ! j = t') \<and>
       length (timer s') = length (timer s)" ..
  then show thesis using that by blast
qed

lemma run_inv:
  assumes inv: "sched_inv s" and r: "run RF now dm s = Inr s'"
  shows "sched_inv s'"
    and "\<forall>j<length (timer s). \<forall>t'. scan_slot RF now (timer s ! j) = Inr t' \<longrightarrow>
           toBeCalled t' = TIMER_DEFCALL_RUNANDDEL \<longrightarrow> timer s' ! j = zeroed\<lparr>prev_millis := dm j\<rparr>"
proof -
  from run_Inr [OF r] obtain s1 where sc: "scan RF now s = Inr s1" and s': "s' = dispatch dm s1"
    by blast
  have len: "length (timer s1) = length (timer s)" by (rule scan_Inr(1) [OF sc])
  have inv1: "sched_inv s1" by (rule scan_inv [OF inv sc])
  have m1: "marks_ok s1" by (rule scan_marks_ok [OF sc])
  have d: "s' = fold (dispatch_slot dm) [0..<length (timer s1)] s1"
    by (simp add: s' dispatch_def MAX_NUMBER_TIMERS_def)
  have I: "sched_inv (fold (dispatch_slot dm) [0..<length (timer s1)] s1) \<and>
     marks_ok (fold (dispatch_slot dm) [0..<length (timer s1)] s1) \<and>
     (\<forall>j\<in>set [0..<length (timer s1)]. toBeCalled (timer s1 ! j) = TIMER_DEFCALL_RUNANDDEL \<longrightarrow>
        timer (fold (dispatch_slot dm) [0..<length (timer s1)] s1) ! j = zeroed\<lparr>prev_millis := dm j\<rparr>)"
    by (rule dispatch_fold_inv [OF _ _ inv1 m1]) simp_all
  show "sched_inv s'" using I unfolding d [symmetric] by simp
  show "\<forall>j<length (timer s). \<forall>t'. scan_slot RF now (timer s ! j) = Inr t' \<longrightarrow>
           toBeCalled t' = TIMER_DEFCALL_RUNANDDEL \<longrightarrow> timer s' ! j = zeroed\<lparr>prev_millis := dm j\<rparr>"
  proof (intro allI impI)
    fix j t' assume j: "j < length (timer s)" and sl: "scan_slot RF now (timer s ! j) = Inr t'"
      and del: "toBeCalled t' = TIMER_DEFCALL_RUNANDDEL"
    have "scan_slot RF now (timer s ! j) = Inr (timer s1 ! j)" using scan_Inr(4) [OF sc] j by simp
    then have "timer s1 ! j = t'" using sl by simp
    then show "timer s' ! j = zeroed\<lparr>prev_millis := dm j\<rparr>"
      using I j len del unfolding d [symmetric] by simp
  qed
qed

section \<open>Finding a free slot and registering\<close>

lemma findFirstFreeSlot_cases:
  "findFirstFreeSlot s = - 1 \<or>
   (\<exists>i<length (timer s). findFirstFreeSlot s = int i \<and> callback (timer s ! i) = NULL \<and>
      (\<forall>j<i. callback (timer s ! j) \<noteq> NULL) \<and> sint (numTimers s) < int (length (timer s)))"
proof (cases "find (\<lambda>i. callback (timer s ! i) = NULL) [0..<length (timer s)]")
  case None
  then show ?thesis by (simp add: findFirstFreeSlot_def MAX_NUMBER_TIMERS_def)
next
  case (Some i)
  then have "i < length (timer s) \<and> callback (timer s ! i) = NULL \<and>
      (\<forall>j<i. callback (timer s ! j) \<noteq> NULL)"
    by (auto simp: find_Some_iff)
  then show ?thesis using Some
    by (cases "int (length (timer s)) \<le> sint (numTimers s)")
      (auto simp: findFirstFreeSlot_def MAX_NUMBER_TIMERS_def)
qed

lemma findFirstFreeSlot_lowest:
  assumes i: "i < length (timer s)" and c: "callback (timer s ! i) = NULL"
    and b: "\<forall>j<i. callback (timer s ! j) \<noteq> NULL"
    and n: "sint (numTimers s) < int (length (timer s))"
  shows "findFirstFreeSlot s = int i"
proof -
  have "find (\<lambda>i. callback (timer s ! i) = NULL) [0..<length (timer s)] = Some i"
    using i c b by (auto simp: find_Some_iff intro!: exI [of _ i])
  then show ?thesis using n by (simp add: findFirstFreeSlot_def MAX_NUMBER_TIMERS_def)
qed

lemma setupTimer_fail:
  assumes "0 \<le> sint (numTimers s)" and "findFirstFreeSlot s < 0 \<or> f = NULL"
  shows "setupTimer d f p h n m0 m1 s = (- 1, s)"
  using assms by (auto simp: setupTimer_def Let_def)

lemma setupTimer_ok:
  assumes "0 \<le> sint (numTimers s)" and "findFirstFreeSlot s = int i" and "f \<noteq> NULL"
  shows "setupTimer d f p h n m0 m1 s =
           (int i, s\<lparr>timer := (timer s)[i := (timer s ! i)\<lparr>delay := d, callback := f, param := p,
                        hasParam := h, maxNumRuns := n, enabled := True, prev_millis := m1\<rparr>],
                     numTimers := numTimers s + 1\<rparr>)"
  using assms by (simp add: setupTimer_def Let_def)

lemma word_succ_of_nat: "(of_nat k :: 32 word) + 1 = of_nat (k + 1)"
  by simp

section \<open>The invariant under every operation\<close>

lemma sched_inv_sint:
  assumes "sched_inv s"
  shows "sint (numTimers s) = int (in_use_count s)" and "in_use_count s \<le> MAX_NUMBER_TIMERS s"
    and "unat (numTimers s) = in_use_count s"
proof -
  have cap: "length (timer s) \<le> 255" using assms by (simp add: sched_inv_def MAX_NUMBER_TIMERS_def)
  have small: "in_use_count s \<le> 255" using in_use_count_le [of s] cap by simp
  have nt: "numTimers s = of_nat (in_use_count s)" using assms by (simp add: sched_inv_def)
  show "sint (numTimers s) = int (in_use_count s)" unfolding nt by (rule sint_small [OF small])
  show "in_use_count s \<le> MAX_NUMBER_TIMERS s"
    by (simp add: MAX_NUMBER_TIMERS_def in_use_count_le)
  show "unat (numTimers s) = in_use_count s" unfolding nt by (rule unat_slot_index [OF small])
qed

lemma init_inv:
  assumes "length (timer s) \<le> 255"
  shows "sched_inv (init m s)"
proof -
  have "in_use_count (init m s) = 0"
    by (simp add: in_use_count_def init_timer zeroed_def)
  moreover have "numTimers (init m s) = 0" by (simp add: init_def)
  moreover have "\<forall>t\<in>set (timer (init m s)). callback t = NULL \<longrightarrow> numRuns t = 0"
    by (simp add: init_timer zeroed_def)
  moreover have "MAX_NUMBER_TIMERS (init m s) \<le> 255"
    using assms by (simp add: MAX_NUMBER_TIMERS_def init_timer)
  ultimately show ?thesis unfolding sched_inv_def by simp
qed

lemma sched_inv_update:
  assumes inv: "sched_inv s" and i: "i < length (timer s)"
    and c: "callback t' = callback (timer s ! i)" and r: "numRuns t' = numRuns (timer s ! i)"
  shows "sched_inv (s\<lparr>timer := (timer s)[i := t']\<rparr>)"
proof -
  have "length (filter (\<lambda>t. callback t \<noteq> NULL) ((timer s)[i := t']))
          + (if callback (timer s ! i) \<noteq> NULL then 1 else 0) =
        length (filter (\<lambda>t. callback t \<noteq> NULL) (timer s))
          + (if callback t' \<noteq> NULL then 1 else 0)"
    using i by (rule count_update)
  then have cnt: "in_use_count (s\<lparr>timer := (timer s)[i := t']\<rparr>) = in_use_count s"
    using c by (simp add: in_use_count_def)
  have free: "\<forall>t\<in>set (timer s). callback t = NULL \<longrightarrow> numRuns t = 0"
    using inv by (simp add: sched_inv_def)
  have "timer s ! i \<in> set (timer s)" using i by simp
  then have old: "callback (timer s ! i) = NULL \<longrightarrow> numRuns (timer s ! i) = 0"
    using free by blast
  have sub: "set ((timer s)[i := t']) \<subseteq> insert t' (set (timer s))"
    by (rule set_update_subset_insert)
  have free': "\<forall>t\<in>set ((timer s)[i := t']). callback t = NULL \<longrightarrow> numRuns t = 0"
  proof (intro ballI impI)
    fix t assume "t \<in> set ((timer s)[i := t'])" and n: "callback t = NULL"
    then have "t = t' \<or> t \<in> set (timer s)" using sub by auto
    then show "numRuns t = 0" using n old c r free by auto
  qed
  have "numTimers s = of_nat (in_use_count s)" "MAX_NUMBER_TIMERS s \<le> 255"
    using inv by (simp_all add: sched_inv_def)
  then show ?thesis using cnt free'
    by (simp add: sched_inv_def MAX_NUMBER_TIMERS_def)
qed

lemma sched_inv_map:
  assumes inv: "sched_inv s" and g: "\<And>t. callback (g t) = callback t \<and> numRuns (g t) = numRuns t"
  shows "sched_inv (s\<lparr>timer := map g (timer s)\<rparr>)"
proof -
  have "map callback (map g (timer s)) = map callback (timer s)" using g by simp
  then have "length (filter (\<lambda>t. callback t \<noteq> NULL) (map g (timer s))) =
             length (filter (\<lambda>t. callback t \<noteq> NULL) (timer s))"
    by (rule count_same [where P = "\<lambda>c. c \<noteq> NULL"])
  then have cnt: "in_use_count (s\<lparr>timer := map g (timer s)\<rparr>) = in_use_count s"
    by (simp add: in_use_count_def)
  have free: "\<forall>t\<in>set (timer s). callback t = NULL \<longrightarrow> numRuns t = 0"
    using inv by (simp add: sched_inv_def)
  have free': "\<forall>t\<in>set (map g (timer s)). callback t = NULL \<longrightarrow> numRuns t = 0"
    using free g by auto
  have "numTimers s = of_nat (in_use_count s)" "MAX_NUMBER_TIMERS s \<le> 255"
    using inv by (simp_all add: sched_inv_def)
  then show ?thesis using cnt free'
    by (simp add: sched_inv_def MAX_NUMBER_TIMERS_def)
qed

lemma enableAll_eq:
  "enableAll RF s = s\<lparr>timer :=
     map (\<lambda>t. if callback t \<noteq> NULL \<and> numRuns t = RF then t\<lparr>enabled := True\<rparr> else t) (timer s)\<rparr>"
  using fold_cond_update_all [of "\<lambda>t. callback t \<noteq> NULL \<and> numRuns t = RF" "\<lambda>t. t\<lparr>enabled := True\<rparr>" "timer s"]
  by (simp add: enableAll_def MAX_NUMBER_TIMERS_def)

lemma disableAll_eq:
  "disableAll RF s = s\<lparr>timer :=
     map (\<lambda>t. if callback t \<noteq> NULL \<and> numRuns t = RF then t\<lparr>enabled := False\<rparr> else t) (timer s)\<rparr>"
  using fold_cond_update_all [of "\<lambda>t. callback t \<noteq> NULL \<and> numRuns t = RF" "\<lambda>t. t\<lparr>enabled := False\<rparr>" "timer s"]
  by (simp add: disableAll_def MAX_NUMBER_TIMERS_def)

lemma enableAll_inv: "sched_inv s \<Longrightarrow> sched_inv (enableAll RF s)"
  unfolding enableAll_eq by (rule sched_inv_map) simp_all

lemma disableAll_inv: "sched_inv s \<Longrightarrow> sched_inv (disableAll RF s)"
  unfolding disableAll_eq by (rule sched_inv_map) simp_all

lemma enable_inv: "sched_inv s \<Longrightarrow> sched_inv (enable numTimer s)"
  by (simp add: enable_def MAX_NUMBER_TIMERS_def sched_inv_update)

lemma disable_inv: "sched_inv s \<Longrightarrow> sched_inv (disable numTimer s)"
  by (simp add: disable_def MAX_NUMBER_TIMERS_def sched_inv_update)

lemma toggle_inv: "sched_inv s \<Longrightarrow> sched_inv (toggle numTimer s)"
  by (simp add: toggle_def MAX_NUMBER_TIMERS_def sched_inv_update)

lemma restartTimer_inv: "sched_inv s \<Longrightarrow> sched_inv (restartTimer numTimer now s)"
  by (simp add: restartTimer_def MAX_NUMBER_TIMERS_def sched_inv_update)

lemma changeInterval_inv: "sched_inv s \<Longrightarrow> sched_inv (snd (changeInterval numTimer d now s))"
  by (simp add: changeInterval_def MAX_NUMBER_TIMERS_def sched_inv_update)

lemma deleteTimer_inv:
  assumes "sched_inv s"
  shows "sched_inv (deleteTimer timerId now s)"
proof (cases "unat timerId < length (timer s) \<and> numTimers s \<noteq> 0
              \<and> callback (timer s ! unat timerId) \<noteq> NULL")
  case True
  then have "sched_inv (deleteTimer (of_nat (unat timerId)) now s)"
    using sched_inv_delete(2) [OF assms, of "unat timerId" now] by simp
  then show ?thesis by simp
next
  case False
  then have "deleteTimer timerId now s = s"
    by (auto simp: deleteTimer_def MAX_NUMBER_TIMERS_def)
  then show ?thesis using assms by simp
qed

lemma setupTimer_inv:
  assumes inv: "sched_inv s"
  shows "sched_inv (snd (setupTimer d f p h n m0 m1 s))"
proof -
  have nn: "0 \<le> sint (numTimers s)" using sched_inv_sint(1) [OF inv] by simp
  show ?thesis
  proof (cases "findFirstFreeSlot s < 0 \<or> f = NULL")
    case True
    then show ?thesis using setupTimer_fail [OF nn True] inv by simp
  next
    case False
    then have f: "f \<noteq> NULL" and "findFirstFreeSlot s \<noteq> - 1" by auto
    then obtain i where i: "i < length (timer s)" and r: "findFirstFreeSlot s = int i"
      and c: "callback (timer s ! i) = NULL"
      using findFirstFreeSlot_cases [of s] by auto
    let ?t = "(timer s ! i)\<lparr>delay := d, callback := f, param := p,
                        hasParam := h, maxNumRuns := n, enabled := True, prev_millis := m1\<rparr>"
    have eq: "snd (setupTimer d f p h n m0 m1 s) =
        s\<lparr>timer := (timer s)[i := ?t], numTimers := numTimers s + 1\<rparr>"
      using setupTimer_ok [OF nn r f, of d p h n m0 m1] by simp
    have "length (filter (\<lambda>t. callback t \<noteq> NULL) ((timer s)[i := ?t]))
          + (if callback (timer s ! i) \<noteq> NULL then 1 else 0) =
        length (filter (\<lambda>t. callback t \<noteq> NULL) (timer s))
          + (if callback ?t \<noteq> NULL then 1 else 0)"
      using i by (rule count_update)
    then have cnt: "in_use_count (snd (setupTimer d f p h n m0 m1 s)) = in_use_count s + 1"
      using c f by (simp add: eq in_use_count_def)
    have free: "\<forall>t\<in>set (timer s). callback t = NULL \<longrightarrow> numRuns t = 0"
      using inv by (simp add: sched_inv_def)
    have sub: "set ((timer s)[i := ?t]) \<subseteq> insert ?t (set (timer s))"
      by (rule set_update_subset_insert)
    have free': "\<forall>t\<in>set (timer (snd (setupTimer d f p h n m0 m1 s))).
        callback t = NULL \<longrightarrow> numRuns t = 0"
    proof (intro ballI impI)
      fix t assume "t \<in> set (timer (snd (setupTimer d f p h n m0 m1 s)))" and z: "callback t = NULL"
      then have "t = ?t \<or> t \<in> set (timer s)" using sub by (auto simp: eq)
      moreover have "t \<noteq> ?t" using z f by auto
      ultimately show "numRuns t = 0" using free z by blast
    qed
    have nt: "numTimers s = of_nat (in_use_count s)" using inv by (simp add: sched_inv_def)
    have "numTimers s + 1 = of_nat (in_use_count s + 1)"
      unfolding nt by (rule word_succ_of_nat)
    moreover have "numTimers (snd (setupTimer d f p h n m0 m1 s)) = numTimers s + 1"
      by (simp add: eq)
    ultimately have "numTimers (snd (setupTimer d f p h n m0 m1 s)) =
        of_nat (in_use_count (snd (setupTimer d f p h n m0 m1 s)))"
      by (simp only: cnt)
    moreover have "MAX_NUMBER_TIMERS (snd (setupTimer d f p h n m0 m1 s)) \<le> 255"
      using inv by (simp add: eq sched_inv_def MAX_NUMBER_TIMERS_def)
    ultimately show ?thesis using free' unfolding sched_inv_def by blast
  qed
qed

lemma step_inv: "sched_inv s \<Longrightarrow> step RF x s = Inr s' \<Longrightarrow> sched_inv s'"
proof (cases x)
  case (Tick now dm)
  assume "sched_inv s" "step RF x s = Inr s'"
  then show ?thesis using Tick run_inv(1) [of s RF now dm s'] by simp
qed (auto simp: setupTimer_inv deleteTimer_inv restartTimer_inv changeInterval_inv enable_inv
       disable_inv toggle_inv enableAll_inv disableAll_inv)

lemma exec_inv: "sched_inv s \<Longrightarrow> exec RF xs s = Inr s' \<Longrightarrow> sched_inv s'"
proof (induction xs arbitrary: s)
  case Nil
  then show ?case by simp
next
  case (Cons x xs)
  from Cons.prems(2) obtain s1 where s1: "step RF x s = Inr s1" and r: "exec RF xs s1 = Inr s'"
    by (auto split: sum.splits)
  have "sched_inv s1" by (rule step_inv [OF Cons.prems(1) s1])
  then show ?case using r by (rule Cons.IH)
qed

section \<open>An uninitialised scheduler\<close>

text \<open>
  C10. A scheduler that was constructed and neither initialised nor registered into
  reports \<open>2 ^ 32 - 1\<close> timers, the counter -1 read as an unsigned 32-bit value, not 0.
\<close>

theorem getNumTimers_uninitialised:
  "unat (getNumTimers (Portenta_H7_ISR_Timer ts)) = 2 ^ 32 - 1
   \<and> sint (numTimers (Portenta_H7_ISR_Timer ts)) = - 1
   \<and> getNumTimers (Portenta_H7_ISR_Timer ts) \<noteq> 0"
proof -
  have "numTimers (Portenta_H7_ISR_Timer ts) = - 1"
    by (simp add: Portenta_H7_ISR_Timer_def)
  moreover have "(- 1 :: 32 word) \<noteq> 0" by simp
  ultimately show ?thesis
    by (simp add: getNumTimers_def unat_minus_one_32)
qed

section \<open>Bulk enabling and disabling\<close>

text \<open>
  C4. \<open>enableAll\<close> sets \<open>enabled\<close> to true, and \<open>disableAll\<close> sets it to false, in exactly
  the slots that have a callback and whose \<open>numRuns\<close> field (the counter of completed
  runs, not \<open>maxNumRuns\<close>) equals the sentinel \<open>TIMER_RUN_FOREVER\<close>; every other slot, and
  every other field, is left as it was.
\<close>

theorem enableAll_disableAll_gate:
  "i < MAX_NUMBER_TIMERS s \<longrightarrow>
     timer (enableAll RF s) ! i =
       (if callback (timer s ! i) \<noteq> NULL \<and> numRuns (timer s ! i) = RF
        then (timer s ! i)\<lparr>enabled := True\<rparr> else timer s ! i)
     \<and> timer (disableAll RF s) ! i =
       (if callback (timer s ! i) \<noteq> NULL \<and> numRuns (timer s ! i) = RF
        then (timer s ! i)\<lparr>enabled := False\<rparr> else timer s ! i)
     \<and> MAX_NUMBER_TIMERS (enableAll RF s) = MAX_NUMBER_TIMERS s
     \<and> MAX_NUMBER_TIMERS (disableAll RF s) = MAX_NUMBER_TIMERS s
     \<and> numTimers (enableAll RF s) = numTimers s
     \<and> numTimers (disableAll RF s) = numTimers s"
proof -
  have "numTimers (enableAll RF s) = numTimers s" "numTimers (disableAll RF s) = numTimers s"
    by (simp_all add: enableAll_def disableAll_def)
  then show ?thesis
    by (simp add: enableAll_timer disableAll_timer MAX_NUMBER_TIMERS_def)
qed

text \<open>With the sentinel 0 the fresh timer in slot 0 of \<open>demo\<close> passes the gate; with the
  sentinel 7 it does not, although it is in use and its \<open>maxNumRuns\<close> is not involved.\<close>

theorem enableAll_disableAll_gate_witness:
  "enabled (timer (disableAll 0 demo) ! 0) = False
   \<and> enabled (timer (disableAll 7 demo) ! 0) = True
   \<and> enabled (timer (enableAll 0 (disableAll 0 demo)) ! 0) = True
   \<and> timer (enableAll 0 demo) ! 1 = zeroed"
  using enableAll_disableAll_gate [of 0 demo 0] enableAll_disableAll_gate [of 0 demo 7]
    enableAll_disableAll_gate [of 0 "disableAll 0 demo" 0] enableAll_disableAll_gate [of 1 demo 0]
  by (simp add: demo_def demo_slot_def zeroed_def NULL_def MAX_NUMBER_TIMERS_def)

section \<open>Changing the interval of a timer\<close>

text \<open>
  C7. \<open>changeInterval (id, newPeriod)\<close> returns false and changes nothing when \<open>id\<close> is
  not below the capacity or the slot has no callback. Otherwise it returns true, sets
  the slot's \<open>delay\<close> to the new period and its \<open>prev_millis\<close> to the clock, and leaves the
  other fields of the slot, the other slots and \<open>numTimers\<close> as they were.
\<close>

theorem changeInterval_spec:
  "(MAX_NUMBER_TIMERS s \<le> unat numTimer \<or> callback (timer s ! unat numTimer) = NULL
      \<longrightarrow> changeInterval numTimer d now s = (False, s))
   \<and> (unat numTimer < MAX_NUMBER_TIMERS s \<and> callback (timer s ! unat numTimer) \<noteq> NULL
      \<longrightarrow> fst (changeInterval numTimer d now s)
        \<and> timer (snd (changeInterval numTimer d now s)) ! unat numTimer =
            (timer s ! unat numTimer)\<lparr>delay := d, prev_millis := now\<rparr>
        \<and> (\<forall>j. j \<noteq> unat numTimer \<longrightarrow>
              timer (snd (changeInterval numTimer d now s)) ! j = timer s ! j)
        \<and> length (timer (snd (changeInterval numTimer d now s))) = length (timer s)
        \<and> numTimers (snd (changeInterval numTimer d now s)) = numTimers s
        \<and> calls (snd (changeInterval numTimer d now s)) = calls s)"
  by (simp add: changeInterval_def MAX_NUMBER_TIMERS_def)

theorem changeInterval_spec_witness:
  "changeInterval 0 25 7 demo =
     (True, demo\<lparr>timer := [demo_slot\<lparr>delay := 25, prev_millis := 7\<rparr>, zeroed]\<rparr>)
   \<and> changeInterval 1 25 7 demo = (False, demo)
   \<and> changeInterval 2 25 7 demo = (False, demo)"
  using changeInterval_spec [of demo 0 25 7] changeInterval_spec [of demo 1 25 7]
    changeInterval_spec [of demo 2 25 7]
  by (simp add: demo_def demo_slot_def zeroed_def NULL_def MAX_NUMBER_TIMERS_def changeInterval_def)

section \<open>Slot ids out of range\<close>

text \<open>
  C8. For an id that is not below the capacity, \<open>isEnabled\<close> returns false and
  \<open>enable\<close>, \<open>disable\<close>, \<open>toggle\<close>, \<open>restartTimer\<close> and \<open>deleteTimer\<close> return the state
  they were given, slots and \<open>numTimers\<close> alike. Deleting a slot in range that is
  already free leaves \<open>numTimers\<close> (and the state) unchanged as well.
\<close>

theorem out_of_range_noop:
  "(MAX_NUMBER_TIMERS s \<le> unat numTimer \<longrightarrow>
      \<not> isEnabled numTimer s \<and> enable numTimer s = s \<and> disable numTimer s = s
      \<and> toggle numTimer s = s \<and> restartTimer numTimer now s = s
      \<and> deleteTimer numTimer now s = s)
   \<and> (unat numTimer < MAX_NUMBER_TIMERS s \<and> callback (timer s ! unat numTimer) = NULL \<longrightarrow>
      deleteTimer numTimer now s = s \<and> numTimers (deleteTimer numTimer now s) = numTimers s)"
  by (simp add: isEnabled_def enable_def disable_def toggle_def restartTimer_def deleteTimer_def)

theorem out_of_range_noop_witness:
  "\<not> isEnabled 2 demo \<and> enable 2 demo = demo \<and> disable 2 demo = demo \<and> toggle 2 demo = demo
   \<and> restartTimer 2 9 demo = demo \<and> deleteTimer 2 9 demo = demo
   \<and> deleteTimer 1 9 demo = demo \<and> numTimers (deleteTimer 1 9 demo) = 1"
  using out_of_range_noop [of demo 2 9] out_of_range_noop [of demo 1 9]
  by (simp add: demo_def demo_slot_def zeroed_def NULL_def MAX_NUMBER_TIMERS_def)

section \<open>The scan advances the baseline by whole periods\<close>

text \<open>
  C1. In the scan phase of \<open>run\<close>, a slot in use whose elapsed time \<open>now - prev_millis\<close>
  (wrapping 32-bit subtraction) is at least its \<open>delay\<close> has \<open>prev_millis\<close> advanced by
  exactly \<open>delay * (elapsed div delay)\<close>; the product does not wrap, so the advance is a
  whole multiple of the period and at most the elapsed time. The slot is marked at
  most once: \<open>numRuns\<close> grows by at most one, a run-forever timer that is enabled is
  marked, and the tick invokes the callback of the slot at most once. The scan is
  assumed to return, that is, no slot in use has period 0.
\<close>

theorem scan_advances_by_whole_periods:
  assumes "scan RF now s = Inr s1" and "i < MAX_NUMBER_TIMERS s"
    and "callback (timer s ! i) \<noteq> NULL"
    and "delay (timer s ! i) \<le> now - prev_millis (timer s ! i)"
  shows "prev_millis (timer s1 ! i) =
           prev_millis (timer s ! i) +
           delay (timer s ! i) * ((now - prev_millis (timer s ! i)) div delay (timer s ! i))
       \<and> unat (prev_millis (timer s1 ! i) - prev_millis (timer s ! i)) =
           unat (delay (timer s ! i)) *
           (unat (now - prev_millis (timer s ! i)) div unat (delay (timer s ! i)))
       \<and> (numRuns (timer s1 ! i) = numRuns (timer s ! i) \<or>
          numRuns (timer s1 ! i) = numRuns (timer s ! i) + 1)
       \<and> (enabled (timer s ! i) \<and> maxNumRuns (timer s ! i) = RF \<longrightarrow>
            toBeCalled (timer s1 ! i) = TIMER_DEFCALL_RUNONLY)
       \<and> (MAX_NUMBER_TIMERS s \<le> 255 \<longrightarrow>
            run RF now dm s = Inr (dispatch dm s1) \<and>
            fired i (dispatch dm s1) \<le> fired i s + 1)"
proof -
  let ?t = "timer s ! i"
  have i: "i < length (timer s)" using assms(2) by (simp add: MAX_NUMBER_TIMERS_def)
  have sl: "scan_slot RF now ?t = Inr (timer s1 ! i)"
    using scan_Inr(4) [OF assms(1)] i by simp
  have p: "prev_millis (timer s1 ! i) =
      prev_millis ?t + delay ?t * ((now - prev_millis ?t) div delay ?t)"
    using scan_slot_prev [OF sl] assms(3,4) by simp
  have "prev_millis (timer s1 ! i) - prev_millis ?t =
      delay ?t * ((now - prev_millis ?t) div delay ?t)"
    unfolding p by simp
  then have u: "unat (prev_millis (timer s1 ! i) - prev_millis ?t) =
      unat (delay ?t) * (unat (now - prev_millis ?t) div unat (delay ?t))"
    by (simp only: advance_exact)
  have n: "numRuns (timer s1 ! i) = numRuns ?t \<or> numRuns (timer s1 ! i) = numRuns ?t + 1"
    using scan_slot_numRuns [OF sl] by (simp split: if_splits)
  have nz: "delay ?t \<noteq> 0"
    using scan_slot_Inl_iff [of RF now ?t DivisionByZero] sl assms(3) by auto
  have f: "enabled ?t \<and> maxNumRuns ?t = RF \<longrightarrow>
      toBeCalled (timer s1 ! i) = TIMER_DEFCALL_RUNONLY"
    using scan_slot_forever [OF sl assms(3) _ assms(4)] by blast
  have r: "MAX_NUMBER_TIMERS s \<le> 255 \<longrightarrow>
      run RF now dm s = Inr (dispatch dm s1) \<and> fired i (dispatch dm s1) \<le> fired i s + 1"
  proof
    assume cap: "MAX_NUMBER_TIMERS s \<le> 255"
    have run: "run RF now dm s = Inr (dispatch dm s1)" using assms(1) by (simp add: run_def)
    have cap': "length (timer s) \<le> 255" using cap by (simp add: MAX_NUMBER_TIMERS_def)
    from run_basic [OF run cap' i] obtain t' where
      "scan_slot RF now (timer s ! i) = Inr t' \<and>
       fired i (dispatch dm s1) =
         fired i s + (if toBeCalled t' = TIMER_DEFCALL_DONTRUN then 0 else 1) \<and>
       (toBeCalled t' \<noteq> TIMER_DEFCALL_RUNANDDEL \<longrightarrow> timer (dispatch dm s1) ! i = t') \<and>
       length (timer (dispatch dm s1)) = length (timer s)" ..
    then have "fired i (dispatch dm s1) \<le> fired i s + 1" by simp
    then show "run RF now dm s = Inr (dispatch dm s1) \<and> fired i (dispatch dm s1) \<le> fired i s + 1"
      using run by simp
  qed
  show ?thesis using p u n f r by blast
qed


theorem scan_advances_by_whole_periods_witness:
  "prev_millis (timer demo_scanned ! 0) = - 30 + 10 * (35 div 10)
   \<and> unat (prev_millis (timer demo_scanned ! 0) - (- 30)) = 30
   \<and> toBeCalled (timer demo_scanned ! 0) = TIMER_DEFCALL_RUNONLY
   \<and> run 0 5 (\<lambda>_. 5) demo = Inr (dispatch (\<lambda>_. 5) demo_scanned)
   \<and> fired 0 (dispatch (\<lambda>_. 5) demo_scanned) \<le> 1"
proof -
  have sc: "scan 0 5 demo = Inr demo_scanned"
    by (simp add: scan_def scan_slot_def demo_def demo_scanned_def demo_slot_def zeroed_def
        NULL_def MAX_NUMBER_TIMERS_def Let_def word_le_nat_alt word_less_nat_alt)
  have i: "0 < MAX_NUMBER_TIMERS demo" by (simp add: demo_def MAX_NUMBER_TIMERS_def)
  have c: "callback (timer demo ! 0) \<noteq> NULL" by (simp add: demo_def demo_slot_def NULL_def)
  have d: "delay (timer demo ! 0) \<le> 5 - prev_millis (timer demo ! 0)"
    by (simp add: demo_def demo_slot_def)
  from scan_advances_by_whole_periods [OF sc i c d, of "\<lambda>_. 5"] show ?thesis
    by (simp add: demo_def demo_scanned_def demo_slot_def MAX_NUMBER_TIMERS_def fired_def)
qed

section \<open>A period of zero\<close>

text \<open>
  C9. The division \<open>elapsed / delay\<close> of the scan has a nonzero divisor exactly when
  every slot in use has a nonzero \<open>delay\<close>: \<open>run\<close> reaches the division by zero if and
  only if some slot in use has period 0. Registration does not enforce that:
  \<open>setupTimer\<close> with period 0 and a callback returns the free slot it found, stores the
  period 0 there, and the next \<open>run\<close> divides by zero.
\<close>

theorem zero_period_divides_by_zero:
  "(run RF now dm s = Inl DivisionByZero \<longleftrightarrow>
      (\<exists>i<MAX_NUMBER_TIMERS s. callback (timer s ! i) \<noteq> NULL \<and> delay (timer s ! i) = 0))
   \<and> (0 \<le> sint (numTimers s) \<and> 0 \<le> findFirstFreeSlot s \<and> f \<noteq> NULL \<longrightarrow>
        fst (setupTimer 0 f p h n m0 m1 s) = findFirstFreeSlot s \<and>
        callback (timer (snd (setupTimer 0 f p h n m0 m1 s)) ! nat (findFirstFreeSlot s)) = f \<and>
        delay (timer (snd (setupTimer 0 f p h n m0 m1 s)) ! nat (findFirstFreeSlot s)) = 0 \<and>
        run RF now dm (snd (setupTimer 0 f p h n m0 m1 s)) = Inl DivisionByZero)"
proof (intro conjI impI)
  show "run RF now dm s = Inl DivisionByZero \<longleftrightarrow>
      (\<exists>i<MAX_NUMBER_TIMERS s. callback (timer s ! i) \<noteq> NULL \<and> delay (timer s ! i) = 0)"
    by (simp only: run_Inl_iff scan_Inl_iff)
next
  assume a: "0 \<le> sint (numTimers s) \<and> 0 \<le> findFirstFreeSlot s \<and> f \<noteq> NULL"
  then have "findFirstFreeSlot s \<noteq> - 1" by auto
  then obtain i where i: "i < length (timer s)" and r: "findFirstFreeSlot s = int i"
    using findFirstFreeSlot_cases [of s] by auto
  let ?s' = "snd (setupTimer 0 f p h n m0 m1 s)"
  have ok: "setupTimer 0 f p h n m0 m1 s =
      (int i, s\<lparr>timer := (timer s)[i := (timer s ! i)\<lparr>delay := 0, callback := f, param := p,
                        hasParam := h, maxNumRuns := n, enabled := True, prev_millis := m1\<rparr>],
                numTimers := numTimers s + 1\<rparr>)"
    using a r by (intro setupTimer_ok) simp_all
  show 1: "fst (setupTimer 0 f p h n m0 m1 s) = findFirstFreeSlot s" using ok r by simp
  show 2: "callback (timer ?s' ! nat (findFirstFreeSlot s)) = f" using ok r i by simp
  show 3: "delay (timer ?s' ! nat (findFirstFreeSlot s)) = 0" using ok r i by simp
  have "i < MAX_NUMBER_TIMERS ?s'" using ok i by (simp add: MAX_NUMBER_TIMERS_def)
  moreover have "callback (timer ?s' ! i) \<noteq> NULL \<and> delay (timer ?s' ! i) = 0"
    using 2 3 r a by simp
  ultimately have "\<exists>i<MAX_NUMBER_TIMERS ?s'. callback (timer ?s' ! i) \<noteq> NULL
      \<and> delay (timer ?s' ! i) = 0" by blast
  then show "run RF now dm ?s' = Inl DivisionByZero"
    by (simp only: run_Inl_iff scan_Inl_iff)
qed

text \<open>Registering a timer of period 0 in the free slot 1 of \<open>demo\<close> succeeds, and the next
  tick divides by zero.\<close>

theorem zero_period_divides_by_zero_witness:
  "fst (setupTimer 0 8192 0 False 0 5 5 demo) = 1
   \<and> run 0 5 (\<lambda>_. 5) (snd (setupTimer 0 8192 0 False 0 5 5 demo)) = Inl DivisionByZero
   \<and> run 0 5 (\<lambda>_. 5) demo \<noteq> Inl DivisionByZero"
proof -
  have n: "0 \<le> sint (numTimers demo)" by (simp add: demo_def)
  have fr: "findFirstFreeSlot demo = 1"
    by (simp add: findFirstFreeSlot_def demo_def demo_slot_def zeroed_def NULL_def
        MAX_NUMBER_TIMERS_def)
  have f: "(8192 :: ptr) \<noteq> NULL" by (simp add: NULL_def)
  have "scan 0 5 demo = Inr demo_scanned"
    by (simp add: scan_def scan_slot_def demo_def demo_scanned_def demo_slot_def zeroed_def
        NULL_def MAX_NUMBER_TIMERS_def Let_def word_le_nat_alt word_less_nat_alt)
  then have "run 0 5 (\<lambda>_. 5) demo \<noteq> Inl DivisionByZero" by (simp add: run_def)
  then show ?thesis
    using zero_period_divides_by_zero [of 0 5 "\<lambda>_. 5" demo 8192 0 False 0 5 5] n fr f
    by simp
qed

section \<open>The counter of timers in use\<close>

text \<open>
  C6. In every state reached from \<open>init\<close> by registrations, ticks, removals, restarts,
  interval changes, enabling, disabling and toggling, in any order, \<open>numTimers\<close> is the
  number of slots with a callback, and it never exceeds \<open>MAX_NUMBER_TIMERS\<close>. (Callbacks
  are taken not to call into the scheduler; a tick that divides by zero reaches no
  state.)
\<close>

theorem numTimers_counts_slots_in_use:
  assumes "MAX_NUMBER_TIMERS s0 \<le> 255" and "exec RF ops (init m s0) = Inr s"
  shows "sint (numTimers s) = int (card {i. i < MAX_NUMBER_TIMERS s \<and> callback (timer s ! i) \<noteq> NULL})
       \<and> unat (getNumTimers s) = card {i. i < MAX_NUMBER_TIMERS s \<and> callback (timer s ! i) \<noteq> NULL}
       \<and> sint (numTimers s) \<le> int (MAX_NUMBER_TIMERS s)"
proof -
  have "sched_inv (init m s0)"
    using assms(1) by (intro init_inv) (simp add: MAX_NUMBER_TIMERS_def)
  then have inv: "sched_inv s" using assms(2) by (rule exec_inv)
  have c: "in_use_count s = card {i. i < MAX_NUMBER_TIMERS s \<and> callback (timer s ! i) \<noteq> NULL}"
    by (simp add: in_use_count_def MAX_NUMBER_TIMERS_def length_filter_conv_card)
  show ?thesis
    using sched_inv_sint [OF inv] c by (simp add: getNumTimers_def)
qed



theorem numTimers_counts_slots_in_use_witness:
  "exec 0 demo_ops (init 0 (Portenta_H7_ISR_Timer [zeroed, zeroed])) = Inr demo_final
   \<and> sint (numTimers demo_final) = 1 \<and> unat (getNumTimers demo_final) = 1
   \<and> card {i. i < MAX_NUMBER_TIMERS demo_final \<and> callback (timer demo_final ! i) \<noteq> NULL} = 1"
proof -
  have e: "exec 0 demo_ops (init 0 (Portenta_H7_ISR_Timer [zeroed, zeroed])) = Inr demo_final"
    by code_simp
  have c: "MAX_NUMBER_TIMERS (Portenta_H7_ISR_Timer [zeroed, zeroed]) \<le> 255"
    by (simp add: MAX_NUMBER_TIMERS_def Portenta_H7_ISR_Timer_def)
  have n: "numTimers demo_final = 1"
    by (simp add: demo_final_def)
  have "sint (numTimers demo_final) =
      int (card {i. i < MAX_NUMBER_TIMERS demo_final \<and> callback (timer demo_final ! i) \<noteq> NULL})"
    using numTimers_counts_slots_in_use [OF c e] by (rule conjunct1)
  then have "card {i. i < MAX_NUMBER_TIMERS demo_final \<and> callback (timer demo_final ! i) \<noteq> NULL} = 1"
    unfolding n by simp
  moreover have "sint (numTimers demo_final) = 1" "unat (getNumTimers demo_final) = 1"
    unfolding getNumTimers_def n by simp_all
  ultimately show ?thesis using e by blast
qed

section \<open>Disabled timers\<close>

lemma run_disabled:
  assumes cap: "length (timer s) \<le> 255" and i: "i < length (timer s)"
    and e: "\<not> enabled (timer s ! i)" and r: "run RF now dm s = Inr s1"
  shows "timer s1 ! i = (timer s ! i)\<lparr>toBeCalled := TIMER_DEFCALL_DONTRUN,
           prev_millis := (if callback (timer s ! i) \<noteq> NULL
                              \<and> delay (timer s ! i) \<le> now - prev_millis (timer s ! i)
             then prev_millis (timer s ! i) +
                  delay (timer s ! i) * ((now - prev_millis (timer s ! i)) div delay (timer s ! i))
             else prev_millis (timer s ! i))\<rparr>"
    and "fired i s1 = fired i s" and "length (timer s1) = length (timer s)"
proof -
  obtain t' where sl: "scan_slot RF now (timer s ! i) = Inr t'"
    and f: "fired i s1 = fired i s + (if toBeCalled t' = TIMER_DEFCALL_DONTRUN then 0 else 1)"
    and k: "toBeCalled t' \<noteq> TIMER_DEFCALL_RUNANDDEL \<Longrightarrow> timer s1 ! i = t'"
    and l: "length (timer s1) = length (timer s)"
    by (rule run_basicE [OF r cap i]) blast
  note t = scan_slot_disabled [OF sl e]
  have m: "toBeCalled t' = TIMER_DEFCALL_DONTRUN" by (subst t) simp
  show "fired i s1 = fired i s" using f m by simp
  show "length (timer s1) = length (timer s)" by (rule l)
  have "timer s1 ! i = t'" using k m by simp
  then show "timer s1 ! i = (timer s ! i)\<lparr>toBeCalled := TIMER_DEFCALL_DONTRUN,
           prev_millis := (if callback (timer s ! i) \<noteq> NULL
                              \<and> delay (timer s ! i) \<le> now - prev_millis (timer s ! i)
             then prev_millis (timer s ! i) +
                  delay (timer s ! i) * ((now - prev_millis (timer s ! i)) div delay (timer s ! i))
             else prev_millis (timer s ! i))\<rparr>"
    using t by simp
qed

lemma ticks_disabled:
  "length (timer s) \<le> 255 \<Longrightarrow> i < length (timer s) \<Longrightarrow> \<not> enabled (timer s ! i) \<Longrightarrow>
   ticks RF tks s = Inr s2 \<Longrightarrow>
   length (timer s2) = length (timer s) \<and> callback (timer s2 ! i) = callback (timer s ! i) \<and>
   \<not> enabled (timer s2 ! i) \<and> numRuns (timer s2 ! i) = numRuns (timer s ! i) \<and>
   fired i s2 = fired i s"
proof (induction tks arbitrary: s)
  case Nil
  then show ?case by simp
next
  case (Cons tk tks)
  from Cons.prems(4) obtain s1 where r: "run RF (fst tk) (snd tk) s = Inr s1"
    and rest: "ticks RF tks s1 = Inr s2" by (auto split: sum.splits)
  note d = run_disabled [OF Cons.prems(1,2,3) r]
  have l1: "length (timer s1) \<le> 255" and i1: "i < length (timer s1)"
    using d(3) Cons.prems by simp_all
  have e1: "\<not> enabled (timer s1 ! i)" using Cons.prems(3) by (subst d(1)) simp
  have c1: "callback (timer s1 ! i) = callback (timer s ! i)" by (subst d(1)) simp
  have n1: "numRuns (timer s1 ! i) = numRuns (timer s ! i)" by (subst d(1)) simp
  from Cons.IH [OF l1 i1 e1 rest] show ?case using d(2,3) c1 n1 by simp
qed

text \<open>
  C5. A timer in use that is disabled is never dispatched. A tick past its deadline
  still advances its \<open>prev_millis\<close> by \<open>delay * (elapsed div delay)\<close>, but leaves its mark
  at \<open>TIMER_DEFCALL_DONTRUN\<close>, does not increment \<open>numRuns\<close> and does not invoke the
  callback; this holds for any number of ticks. After it is enabled again, the next
  tick invokes it at most once.
\<close>

theorem disabled_timer_never_dispatched:
  assumes "MAX_NUMBER_TIMERS s \<le> 255" and "i < MAX_NUMBER_TIMERS s"
    and "callback (timer s ! i) \<noteq> NULL" and "\<not> enabled (timer s ! i)"
    and "run RF now dm s = Inr s1" and "ticks RF tks s1 = Inr s2"
    and "run RF now' dm' (enable (of_nat i) s2) = Inr s3"
  shows "timer s1 ! i = (timer s ! i)\<lparr>toBeCalled := TIMER_DEFCALL_DONTRUN,
           prev_millis := (if delay (timer s ! i) \<le> now - prev_millis (timer s ! i)
             then prev_millis (timer s ! i) +
                  delay (timer s ! i) * ((now - prev_millis (timer s ! i)) div delay (timer s ! i))
             else prev_millis (timer s ! i))\<rparr>
       \<and> fired i s1 = fired i s
       \<and> fired i s2 = fired i s \<and> numRuns (timer s2 ! i) = numRuns (timer s ! i)
       \<and> \<not> enabled (timer s2 ! i) \<and> callback (timer s2 ! i) = callback (timer s ! i)
       \<and> enabled (timer (enable (of_nat i) s2) ! i)
       \<and> fired i s3 \<le> fired i s + 1"
proof -
  have cap: "length (timer s) \<le> 255" and i: "i < length (timer s)"
    using assms(1,2) by (simp_all add: MAX_NUMBER_TIMERS_def)
  note d = run_disabled [OF cap i assms(4,5)]
  have l1: "length (timer s1) \<le> 255" and i1: "i < length (timer s1)"
    using d(3) cap i by simp_all
  have e1: "\<not> enabled (timer s1 ! i)" using assms(4) by (subst d(1)) simp
  have c1: "callback (timer s1 ! i) = callback (timer s ! i)" by (subst d(1)) simp
  have n1: "numRuns (timer s1 ! i) = numRuns (timer s ! i)" by (subst d(1)) simp
  note t = ticks_disabled [OF l1 i1 e1 assms(6)]
  have l2: "length (timer s2) = length (timer s)" using t d(3) by simp
  have u: "unat (of_nat i :: 32 word) = i" using i cap by (simp add: unat_slot_index)
  have en: "enable (of_nat i) s2 = s2\<lparr>timer := (timer s2)[i := (timer s2 ! i)\<lparr>enabled := True\<rparr>]\<rparr>"
    using u i l2 by (simp add: enable_def MAX_NUMBER_TIMERS_def)
  have le: "length (timer (enable (of_nat i) s2)) \<le> 255" "i < length (timer (enable (of_nat i) s2))"
    using l2 cap i by (simp_all add: en)
  obtain t' where "scan_slot RF now' (timer (enable (of_nat i) s2) ! i) = Inr t'"
    and f3': "fired i s3 = fired i (enable (of_nat i) s2)
       + (if toBeCalled t' = TIMER_DEFCALL_DONTRUN then 0 else 1)"
    and "toBeCalled t' \<noteq> TIMER_DEFCALL_RUNANDDEL \<Longrightarrow> timer s3 ! i = t'"
    and "length (timer s3) = length (timer (enable (of_nat i) s2))"
    by (rule run_basicE [OF assms(7) le]) blast
  note f3'
  moreover have "fired i (enable (of_nat i) s2) = fired i s2" by (simp add: en fired_def)
  ultimately have f3: "fired i s3 \<le> fired i s + 1" using t d(2) by simp
  have on: "enabled (timer (enable (of_nat i) s2) ! i)" using i l2 by (simp add: en)
  have first: "timer s1 ! i = (timer s ! i)\<lparr>toBeCalled := TIMER_DEFCALL_DONTRUN,
           prev_millis := (if delay (timer s ! i) \<le> now - prev_millis (timer s ! i)
             then prev_millis (timer s ! i) +
                  delay (timer s ! i) * ((now - prev_millis (timer s ! i)) div delay (timer s ! i))
             else prev_millis (timer s ! i))\<rparr>"
    using d(1) assms(3) by simp
  show ?thesis using first d(2) t c1 n1 on f3 by simp
qed

theorem disabled_timer_never_dispatched_witness:
  "prev_millis (timer demo_idle1 ! 0) = 0 \<and> fired 0 demo_idle1 = 0
   \<and> prev_millis (timer demo_idle2 ! 0) = 40 \<and> fired 0 demo_idle2 = 0
   \<and> numRuns (timer demo_idle2 ! 0) = 0 \<and> fired 0 demo_idle3 = 1"
proof -
  have h: "MAX_NUMBER_TIMERS (disable 0 demo) \<le> 255" "0 < MAX_NUMBER_TIMERS (disable 0 demo)"
    "callback (timer (disable 0 demo) ! 0) \<noteq> NULL" "\<not> enabled (timer (disable 0 demo) ! 0)"
    by code_simp+
  have r1: "run 0 5 (\<lambda>_. 5) (disable 0 demo) = Inr demo_idle1" by code_simp
  have r2: "ticks 0 [(25, \<lambda>_. 25), (47, \<lambda>_. 47)] demo_idle1 = Inr demo_idle2" by code_simp
  have r3: "run 0 52 (\<lambda>_. 52) (enable (of_nat 0) demo_idle2) = Inr demo_idle3" by code_simp
  have v: "fired 0 (disable 0 demo) = 0" "prev_millis (timer demo_idle1 ! 0) = 0"
    "prev_millis (timer demo_idle2 ! 0) = 40" "numRuns (timer (disable 0 demo) ! 0) = 0"
    "fired 0 demo_idle3 = 1"
    by code_simp+
  from disabled_timer_never_dispatched [OF h r1 r2 r3] v show ?thesis by simp
qed

section \<open>Filling the scheduler\<close>

lemma init_filled:
  assumes "length (timer s) \<le> 255"
  shows "filled 0 (init m s)"
proof -
  have "numTimers (init m s) = 0" by (simp add: init_def)
  then show ?thesis
    using assms by (simp add: filled_def MAX_NUMBER_TIMERS_def init_timer zeroed_def)
qed

lemma filled_sint:
  assumes "filled k s"
  shows "sint (numTimers s) = int k"
proof -
  have "k \<le> 255" using assms by (simp add: filled_def)
  then have "sint (of_nat k :: 32 word) = int k" by (rule sint_small)
  then show ?thesis using assms by (simp add: filled_def)
qed

lemma filled_find:
  assumes f: "filled k s" and k: "k < MAX_NUMBER_TIMERS s"
  shows "findFirstFreeSlot s = int k"
proof (rule findFirstFreeSlot_lowest)
  show "k < length (timer s)" using k by (simp add: MAX_NUMBER_TIMERS_def)
  show "callback (timer s ! k) = NULL" using f k by (simp add: filled_def)
  show "\<forall>j<k. callback (timer s ! j) \<noteq> NULL" using f k by (simp add: filled_def)
  show "sint (numTimers s) < int (length (timer s))"
    using filled_sint [OF f] k by (simp add: MAX_NUMBER_TIMERS_def)
qed

lemma filled_full:
  assumes f: "filled (MAX_NUMBER_TIMERS s) s"
  shows "setupTimer d g p h n m0 m1 s = (- 1, s)"
proof -
  have s: "sint (numTimers s) = int (MAX_NUMBER_TIMERS s)" by (rule filled_sint [OF f])
  then have "findFirstFreeSlot s = - 1" by (simp add: findFirstFreeSlot_def)
  then show ?thesis using s by (intro setupTimer_fail) simp_all
qed

lemma filled_setup:
  assumes f: "filled k s" and k: "k < MAX_NUMBER_TIMERS s" and g: "g \<noteq> NULL"
  shows "fst (setupTimer d g p h n m0 m1 s) = int k"
    and "filled (Suc k) (snd (setupTimer d g p h n m0 m1 s))"
    and "MAX_NUMBER_TIMERS (snd (setupTimer d g p h n m0 m1 s)) = MAX_NUMBER_TIMERS s"
proof -
  have nn: "0 \<le> sint (numTimers s)" using filled_sint [OF f] by simp
  note ok = setupTimer_ok [OF nn filled_find [OF f k] g, of d p h n m0 m1]
  show "fst (setupTimer d g p h n m0 m1 s) = int k" by (simp add: ok)
  show "MAX_NUMBER_TIMERS (snd (setupTimer d g p h n m0 m1 s)) = MAX_NUMBER_TIMERS s"
    by (simp add: ok MAX_NUMBER_TIMERS_def)
  have nt: "numTimers s = of_nat k" using f by (simp add: filled_def)
  have "numTimers s + 1 = of_nat (Suc k)" unfolding nt by simp
  moreover have "\<forall>j<length (timer s).
      callback ((timer s)[k := (timer s ! k)\<lparr>delay := d, callback := g, param := p,
          hasParam := h, maxNumRuns := n, enabled := True, prev_millis := m1\<rparr>] ! j) = NULL
      \<longleftrightarrow> Suc k \<le> j"
  proof (intro allI impI)
    fix j assume j: "j < length (timer s)"
    have old: "callback (timer s ! j) = NULL \<longleftrightarrow> k \<le> j"
      using f j by (simp add: filled_def MAX_NUMBER_TIMERS_def)
    show "callback ((timer s)[k := (timer s ! k)\<lparr>delay := d, callback := g, param := p,
          hasParam := h, maxNumRuns := n, enabled := True, prev_millis := m1\<rparr>] ! j) = NULL
      \<longleftrightarrow> Suc k \<le> j"
    proof (cases "j = k")
      case True
      then show ?thesis using j g by simp
    next
      case False
      then show ?thesis using old by auto
    qed
  qed
  ultimately show "filled (Suc k) (snd (setupTimer d g p h n m0 m1 s))"
    using f k by (simp add: ok filled_def MAX_NUMBER_TIMERS_def)
qed

lemma setup_all_filled:
  "filled k s \<Longrightarrow> k + length rs \<le> MAX_NUMBER_TIMERS s \<Longrightarrow> \<forall>r\<in>set rs. fst (snd r) \<noteq> NULL \<Longrightarrow>
   fst (setup_all rs s) = map int [k..<k + length rs] \<and>
   filled (k + length rs) (snd (setup_all rs s)) \<and>
   MAX_NUMBER_TIMERS (snd (setup_all rs s)) = MAX_NUMBER_TIMERS s"
proof (induction rs arbitrary: k s)
  case Nil
  then show ?case by simp
next
  case (Cons r rs)
  obtain d g p h n m0 m1 where r: "r = (d, g, p, h, n, m0, m1)" by (cases r) auto
  have g: "g \<noteq> NULL" using Cons.prems(3) r by simp
  have k: "k < MAX_NUMBER_TIMERS s" using Cons.prems(2) by simp
  let ?s1 = "snd (setupTimer d g p h n m0 m1 s)"
  note st = filled_setup [OF Cons.prems(1) k g, of d p h n m0 m1]
  have b: "Suc k + length rs \<le> MAX_NUMBER_TIMERS ?s1" using Cons.prems(2) st(3) by simp
  have c: "\<forall>r\<in>set rs. fst (snd r) \<noteq> NULL" using Cons.prems(3) by simp
  note IH = Cons.IH [OF st(2) b c]
  have e: "setup_all (r # rs) s =
      (fst (setupTimer d g p h n m0 m1 s) # fst (setup_all rs ?s1), snd (setup_all rs ?s1))"
    by (simp add: r split: prod.splits)
  have u: "[k..<k + length (r # rs)] = k # [Suc k..<Suc k + length rs]"
    by (subst upt_rec) simp
  show ?case unfolding e u using IH st(1,3) by simp
qed

text \<open>
  C3. Starting from an initialised, empty scheduler of capacity \<open>C\<close>, registering \<open>C\<close>
  timers with non-null callbacks succeeds and returns the ids \<open>0, ..., C - 1\<close>, which are
  distinct; before the registration that returns \<open>k\<close> the free slots are exactly those
  from \<open>k\<close> on, so \<open>k\<close> is the lowest free index (and what \<open>findFirstFreeSlot\<close> returns).
  One more registration returns -1 and leaves the state as it was.
\<close>

theorem fill_to_capacity:
  assumes "MAX_NUMBER_TIMERS s0 \<le> 255" and "length rs = MAX_NUMBER_TIMERS s0"
    and "\<forall>r\<in>set rs. fst (snd r) \<noteq> NULL"
  shows "fst (setup_all rs (init m s0)) = map int [0..<MAX_NUMBER_TIMERS s0]
       \<and> distinct (fst (setup_all rs (init m s0)))
       \<and> (\<forall>k<length rs.
            findFirstFreeSlot (snd (setup_all (take k rs) (init m s0))) = int k \<and>
            (\<forall>j<MAX_NUMBER_TIMERS s0.
               callback (timer (snd (setup_all (take k rs) (init m s0))) ! j) = NULL \<longleftrightarrow> k \<le> j))
       \<and> setupTimer d f p h n m0 m1 (snd (setup_all rs (init m s0)))
            = (- 1, snd (setup_all rs (init m s0)))"
proof -
  have cap: "length (timer s0) \<le> 255" using assms(1) by (simp add: MAX_NUMBER_TIMERS_def)
  have f0: "filled 0 (init m s0)" by (rule init_filled [OF cap])
  have m0: "MAX_NUMBER_TIMERS (init m s0) = MAX_NUMBER_TIMERS s0"
    by (simp add: MAX_NUMBER_TIMERS_def init_timer)
  have all: "fst (setup_all rs (init m s0)) = map int [0..<0 + length rs] \<and>
     filled (0 + length rs) (snd (setup_all rs (init m s0))) \<and>
     MAX_NUMBER_TIMERS (snd (setup_all rs (init m s0))) = MAX_NUMBER_TIMERS (init m s0)"
    by (rule setup_all_filled [OF f0]) (simp_all add: assms m0)
  then have res: "fst (setup_all rs (init m s0)) = map int [0..<MAX_NUMBER_TIMERS s0]"
    using assms(2) by simp
  have dist: "distinct (fst (setup_all rs (init m s0)))"
    unfolding res by (simp add: distinct_map)
  have full: "filled (MAX_NUMBER_TIMERS (snd (setup_all rs (init m s0))))
      (snd (setup_all rs (init m s0)))"
    using all assms(2) m0 by simp
  have last: "setupTimer d f p h n m0 m1 (snd (setup_all rs (init m s0)))
            = (- 1, snd (setup_all rs (init m s0)))"
    by (rule filled_full [OF full])
  have pre: "\<forall>k<length rs.
            findFirstFreeSlot (snd (setup_all (take k rs) (init m s0))) = int k \<and>
            (\<forall>j<MAX_NUMBER_TIMERS s0.
               callback (timer (snd (setup_all (take k rs) (init m s0))) ! j) = NULL \<longleftrightarrow> k \<le> j)"
  proof (intro allI impI)
    fix k assume k: "k < length rs"
    let ?sk = "snd (setup_all (take k rs) (init m s0))"
    have "fst (setup_all (take k rs) (init m s0)) = map int [0..<0 + length (take k rs)] \<and>
       filled (0 + length (take k rs)) ?sk \<and>
       MAX_NUMBER_TIMERS ?sk = MAX_NUMBER_TIMERS (init m s0)"
    proof (rule setup_all_filled [OF f0])
      show "0 + length (take k rs) \<le> MAX_NUMBER_TIMERS (init m s0)"
        using k assms(2) m0 by simp
      show "\<forall>r\<in>set (take k rs). fst (snd r) \<noteq> NULL"
        using assms(3) by (auto dest: in_set_takeD)
    qed
    then have fk: "filled k ?sk" and mk: "MAX_NUMBER_TIMERS ?sk = MAX_NUMBER_TIMERS s0"
      using k m0 by simp_all
    have "findFirstFreeSlot ?sk = int k"
      using fk by (rule filled_find) (simp add: mk k assms(2) [symmetric])
    moreover have "\<forall>j<MAX_NUMBER_TIMERS s0. callback (timer ?sk ! j) = NULL \<longleftrightarrow> k \<le> j"
      using fk mk by (simp add: filled_def)
    ultimately show "findFirstFreeSlot ?sk = int k \<and>
            (\<forall>j<MAX_NUMBER_TIMERS s0. callback (timer ?sk ! j) = NULL \<longleftrightarrow> k \<le> j)"
      by blast
  qed
  show ?thesis using res dist pre last by blast
qed

text \<open>Capacity 2: two registrations return 0 and 1, the third returns -1.\<close>

theorem fill_to_capacity_witness:
  "fst (setup_all [(10, 4096, 0, False, 3, 0, 0), (20, 8192, 0, True, 0, 1, 1)]
         (init 0 (Portenta_H7_ISR_Timer [zeroed, zeroed]))) = [0, 1]
   \<and> fst (setupTimer 30 12288 0 False 1 2 2
         (snd (setup_all [(10, 4096, 0, False, 3, 0, 0), (20, 8192, 0, True, 0, 1, 1)]
            (init 0 (Portenta_H7_ISR_Timer [zeroed, zeroed]))))) = - 1
   \<and> snd (setupTimer 30 12288 0 False 1 2 2
         (snd (setup_all [(10, 4096, 0, False, 3, 0, 0), (20, 8192, 0, True, 0, 1, 1)]
            (init 0 (Portenta_H7_ISR_Timer [zeroed, zeroed])))))
       = snd (setup_all [(10, 4096, 0, False, 3, 0, 0), (20, 8192, 0, True, 0, 1, 1)]
            (init 0 (Portenta_H7_ISR_Timer [zeroed, zeroed])))"
proof -
  have c: "MAX_NUMBER_TIMERS (Portenta_H7_ISR_Timer [zeroed, zeroed]) \<le> 255"
    by (simp add: MAX_NUMBER_TIMERS_def Portenta_H7_ISR_Timer_def)
  have l: "length [(10 :: ulong, 4096 :: ptr, 0 :: ptr, False, 3 :: unsigned, 0 :: ulong, 0 :: ulong),
                   (20, 8192, 0, True, 0, 1, 1)]
      = MAX_NUMBER_TIMERS (Portenta_H7_ISR_Timer [zeroed, zeroed])"
    by (simp add: MAX_NUMBER_TIMERS_def Portenta_H7_ISR_Timer_def)
  have g: "\<forall>r\<in>set [(10 :: ulong, 4096 :: ptr, 0 :: ptr, False, 3 :: unsigned, 0 :: ulong, 0 :: ulong),
                     (20, 8192, 0, True, 0, 1, 1)]. fst (snd r) \<noteq> NULL"
    by (simp add: NULL_def)
  have m: "map int [0..<MAX_NUMBER_TIMERS (Portenta_H7_ISR_Timer [zeroed, zeroed])] = [0, 1]"
    by (simp add: MAX_NUMBER_TIMERS_def Portenta_H7_ISR_Timer_def upt_rec)
  from fill_to_capacity [OF c l g, of 0 30 12288 0 False 1 2 2] show ?thesis
    unfolding m by simp
qed

section \<open>Timers with a finite number of runs\<close>

lemma remaining_pos:
  "callback (timer s ! i) \<noteq> NULL \<Longrightarrow> numRuns (timer s ! i) < maxNumRuns (timer s ! i) \<Longrightarrow>
   0 < remaining i s"
  by (simp add: remaining_def word_less_nat_alt)

lemma run_armed:
  assumes inv: "sched_inv s" and i: "i < length (timer s)" and a: "armed RF i n s"
    and r: "run RF now dm s = Inr s'"
  shows "armed RF i n s'" and "fired i s' + remaining i s' = fired i s + remaining i s"
proof -
  have cap: "length (timer s) \<le> 255" using inv by (simp add: sched_inv_def MAX_NUMBER_TIMERS_def)
  obtain t' where sl: "scan_slot RF now (timer s ! i) = Inr t'"
    and f: "fired i s' = fired i s + (if toBeCalled t' = TIMER_DEFCALL_DONTRUN then 0 else 1)"
    and k: "toBeCalled t' \<noteq> TIMER_DEFCALL_RUNANDDEL \<Longrightarrow> timer s' ! i = t'"
    and l: "length (timer s') = length (timer s)"
    by (rule run_basicE [OF r cap i]) blast
  have del: "toBeCalled t' = TIMER_DEFCALL_RUNANDDEL \<Longrightarrow>
      timer s' ! i = zeroed\<lparr>prev_millis := dm i\<rparr>"
    using run_inv(2) [OF inv r] i sl by blast
  note fl = scan_slot_fields [OF sl]
  let ?t = "timer s ! i"
  have "armed RF i n s' \<and> fired i s' + remaining i s' = fired i s + remaining i s"
  proof (cases "callback ?t = NULL")
    case True
    then have t': "t' = ?t\<lparr>toBeCalled := TIMER_DEFCALL_DONTRUN\<rparr>"
      using sl scan_slot_free [of ?t RF now] by simp
    then have m: "toBeCalled t' = TIMER_DEFCALL_DONTRUN" by simp
    have e: "timer s' ! i = t'" using k m by simp
    have "callback (timer s' ! i) = NULL" using e t' True by simp
    then show ?thesis using f m True by (simp add: armed_def remaining_def)
  next
    case False
    then have en: "enabled ?t" and mx: "maxNumRuns ?t = n" and nrf: "n \<noteq> RF"
      and lt: "numRuns ?t < n"
      using a by (auto simp: armed_def)
    have nrf': "maxNumRuns ?t \<noteq> RF" and lt': "numRuns ?t < maxNumRuns ?t"
      using mx nrf lt by simp_all
    from scan_slot_finite [OF sl False en nrf' lt']
    consider (idle) "toBeCalled t' = TIMER_DEFCALL_DONTRUN" "numRuns t' = numRuns ?t"
      | (once) "toBeCalled t' = TIMER_DEFCALL_RUNONLY" "numRuns t' = numRuns ?t + 1"
          "numRuns ?t + 1 < maxNumRuns ?t"
      | (last) "toBeCalled t' = TIMER_DEFCALL_RUNANDDEL" "numRuns t' = numRuns ?t + 1"
          "maxNumRuns ?t \<le> numRuns ?t + 1"
      by blast
    then show ?thesis
    proof cases
      case idle
      have e: "timer s' ! i = t'" using k idle(1) by simp
      have "armed RF i n s'" using e fl False en mx nrf lt idle(2) by (simp add: armed_def)
      moreover have "remaining i s' = remaining i s"
        using e fl idle(2) by (simp add: remaining_def)
      ultimately show ?thesis using f idle(1) by simp
    next
      case once
      have e: "timer s' ! i = t'" using k once(1) by simp
      have u: "unat (numRuns ?t + 1) = unat (numRuns ?t) + 1" using lt by (rule unat_inc)
      have "unat (numRuns ?t + 1) < unat (maxNumRuns ?t)"
        using once(3) by (simp add: word_less_nat_alt)
      then have "remaining i s' + 1 = remaining i s"
        using e fl once(2) False u by (simp add: remaining_def)
      moreover have "armed RF i n s'"
        using e fl False en mx nrf once(2,3) by (simp add: armed_def)
      ultimately show ?thesis using f once(1) by simp
    next
      case last
      have e: "timer s' ! i = zeroed\<lparr>prev_millis := dm i\<rparr>" using del last(1) by simp
      have z: "callback (timer s' ! i) = NULL" by (simp add: e zeroed_def)
      have u: "unat (numRuns ?t + 1) = unat (numRuns ?t) + 1" using lt by (rule unat_inc)
      have "unat (maxNumRuns ?t) \<le> unat (numRuns ?t + 1)"
        using last(3) by (simp add: word_le_nat_alt)
      moreover have "unat (numRuns ?t) < unat (maxNumRuns ?t)"
        using lt' by (simp add: word_less_nat_alt)
      ultimately have "remaining i s = 1" using u False by (simp add: remaining_def)
      moreover have "remaining i s' = 0" using z by (simp add: remaining_def)
      moreover have "armed RF i n s'" using z by (simp add: armed_def)
      ultimately show ?thesis using f last(1) by simp
    qed
  qed
  then show "armed RF i n s'" and "fired i s' + remaining i s' = fired i s + remaining i s"
    by simp_all
qed

lemma run_never_allocates:
  assumes inv: "sched_inv s" and i: "i < length (timer s)" and r: "run RF now dm s = Inr s'"
  shows "length (timer s') = length (timer s)"
    and "callback (timer s' ! i) \<noteq> NULL \<Longrightarrow> callback (timer s ! i) \<noteq> NULL"
proof -
  have cap: "length (timer s) \<le> 255" using inv by (simp add: sched_inv_def MAX_NUMBER_TIMERS_def)
  obtain t' where sl: "scan_slot RF now (timer s ! i) = Inr t'"
    and f: "fired i s' = fired i s + (if toBeCalled t' = TIMER_DEFCALL_DONTRUN then 0 else 1)"
    and k: "toBeCalled t' \<noteq> TIMER_DEFCALL_RUNANDDEL \<Longrightarrow> timer s' ! i = t'"
    and l: "length (timer s') = length (timer s)"
    by (rule run_basicE [OF r cap i]) blast
  show "length (timer s') = length (timer s)" by (rule l)
  assume c: "callback (timer s' ! i) \<noteq> NULL"
  have del: "toBeCalled t' = TIMER_DEFCALL_RUNANDDEL \<Longrightarrow>
      timer s' ! i = zeroed\<lparr>prev_millis := dm i\<rparr>"
    using run_inv(2) [OF inv r] i sl by blast
  have "toBeCalled t' \<noteq> TIMER_DEFCALL_RUNANDDEL"
  proof
    assume "toBeCalled t' = TIMER_DEFCALL_RUNANDDEL"
    then have "callback (timer s' ! i) = NULL" using del by (simp add: zeroed_def)
    then show False using c by simp
  qed
  then have "timer s' ! i = t'" by (rule k)
  then show "callback (timer s ! i) \<noteq> NULL" using c scan_slot_fields(1) [OF sl] by simp
qed

lemma freed_count:
  assumes inv: "sched_inv s" and inv': "sched_inv s'" and l: "length (timer s') = length (timer s)"
    and sub: "\<forall>j<length (timer s). callback (timer s' ! j) \<noteq> NULL \<longrightarrow> callback (timer s ! j) \<noteq> NULL"
  shows "unat (getNumTimers s') +
           card {j. j < MAX_NUMBER_TIMERS s \<and> callback (timer s ! j) \<noteq> NULL
                    \<and> callback (timer s' ! j) = NULL}
         = unat (getNumTimers s)"
proof -
  let ?A = "{j. j < length (timer s) \<and> callback (timer s ! j) \<noteq> NULL}"
  let ?B = "{j. j < length (timer s) \<and> callback (timer s' ! j) \<noteq> NULL}"
  have A: "unat (getNumTimers s) = card ?A"
    using sched_inv_sint(3) [OF inv]
    by (simp add: getNumTimers_def in_use_count_def length_filter_conv_card)
  have B: "unat (getNumTimers s') = card ?B"
    using sched_inv_sint(3) [OF inv'] l
    by (simp add: getNumTimers_def in_use_count_def length_filter_conv_card)
  have fin: "finite ?A" by simp
  have BA: "?B \<subseteq> ?A" using sub by auto
  have D: "{j. j < MAX_NUMBER_TIMERS s \<and> callback (timer s ! j) \<noteq> NULL
                    \<and> callback (timer s' ! j) = NULL} = ?A - ?B"
    by (auto simp: MAX_NUMBER_TIMERS_def)
  have finB: "finite ?B" by simp
  have "card (?A - ?B) = card ?A - card ?B" using finB BA by (rule card_Diff_subset)
  moreover have "card ?B \<le> card ?A" using fin BA by (rule card_mono)
  ultimately have "card ?B + card (?A - ?B) = card ?A" by simp
  then show ?thesis unfolding A B D .
qed

lemma setupTimer_registered:
  assumes inv: "sched_inv sa" and st: "setupTimer d f p h n m0 m1 sa = (r, s)" and r: "0 \<le> r"
  shows "nat r < length (timer s)" and "callback (timer s ! nat r) = f" and "f \<noteq> NULL"
    and "enabled (timer s ! nat r)" and "maxNumRuns (timer s ! nat r) = n"
    and "numRuns (timer s ! nat r) = 0" and "callback (timer sa ! nat r) = NULL"
    and "findFirstFreeSlot sa = r"
    and "param (timer s ! nat r) = p" and "hasParam (timer s ! nat r) = h"
proof -
  have nn: "0 \<le> sint (numTimers sa)" using sched_inv_sint(1) [OF inv] by simp
  have nf: "\<not> (findFirstFreeSlot sa < 0 \<or> f = NULL)"
  proof
    assume "findFirstFreeSlot sa < 0 \<or> f = NULL"
    from setupTimer_fail [OF nn this, of d p h n m0 m1] st r show False by simp
  qed
  then have f: "f \<noteq> NULL" and "findFirstFreeSlot sa \<noteq> - 1" by auto
  then obtain i where i: "i < length (timer sa)" and fr: "findFirstFreeSlot sa = int i"
    and c: "callback (timer sa ! i) = NULL"
    using findFirstFreeSlot_cases [of sa] by auto
  note ok = setupTimer_ok [OF nn fr f, of d p h n m0 m1]
  have ri: "r = int i" and s: "s = sa\<lparr>timer := (timer sa)[i := (timer sa ! i)\<lparr>delay := d,
        callback := f, param := p, hasParam := h, maxNumRuns := n, enabled := True,
        prev_millis := m1\<rparr>], numTimers := numTimers sa + 1\<rparr>"
    using ok st by simp_all
  have "timer sa ! i \<in> set (timer sa)" using i by simp
  then have z: "numRuns (timer sa ! i) = 0" using inv c by (simp add: sched_inv_def)
  show "nat r < length (timer s)" using ri s i by simp
  show "callback (timer s ! nat r) = f" using ri s i by simp
  show "f \<noteq> NULL" by (rule f)
  show "enabled (timer s ! nat r)" using ri s i by simp
  show "maxNumRuns (timer s ! nat r) = n" using ri s i by simp
  show "numRuns (timer s ! nat r) = 0" using ri s i z by simp
  show "callback (timer sa ! nat r) = NULL" using ri c by simp
  show "findFirstFreeSlot sa = r" using ri fr by simp
  show "param (timer s ! nat r) = p" using ri s i by simp
  show "hasParam (timer s ! nat r) = h" using ri s i by simp
qed

lemma unat_slot_id:
  assumes "0 \<le> r" and "nat r \<le> 255"
  shows "unat (of_int r :: 32 word) = nat r"
proof -
  have "(of_int r :: 32 word) = of_nat (nat r)" using assms(1) by simp
  then show ?thesis using unat_slot_index [OF assms(2)] by simp
qed

section \<open>The invocations of one slot\<close>

lemma fired_slot_calls: "fired i s = length (slot_calls i s)"
  by (simp add: fired_def slot_calls_def)

lemma dispatch_slot_calls:
  "slot_calls j (dispatch_slot dm i s) =
     slot_calls j s @
     (if j = i \<and> toBeCalled (timer s ! i) \<noteq> TIMER_DEFCALL_DONTRUN
      then [(i, call_of (timer s ! i))] else [])"
proof -
  have "slot_calls k (deleteTimer timerId now s1) = slot_calls k s1" for k timerId now s1
    by (simp add: slot_calls_def deleteTimer_calls)
  then show ?thesis
    by (simp add: dispatch_slot_def Let_def call_of_def) (simp add: slot_calls_def)
qed

lemma dispatch_fold_calls:
  "distinct is \<Longrightarrow> \<forall>i\<in>set is. i < length (timer s) \<Longrightarrow> length (timer s) \<le> 255 \<Longrightarrow>
   slot_calls j (fold (dispatch_slot dm) is s) =
     slot_calls j s @
     (if j \<in> set is \<and> toBeCalled (timer s ! j) \<noteq> TIMER_DEFCALL_DONTRUN
      then [(j, call_of (timer s ! j))] else [])"
proof (induction "is" arbitrary: s)
  case Nil
  then show ?case by simp
next
  case (Cons i "is")
  define s1 where "s1 = dispatch_slot dm i s"
  have i: "i < length (timer s)" "i \<le> 255" and ni: "i \<notin> set is" and d: "distinct is"
    using Cons.prems by auto
  have len1: "length (timer s1) = length (timer s)"
    by (simp add: s1_def dispatch_slot_length)
  have other: "timer s1 ! k = timer s ! k" if "k \<noteq> i" for k
    using that i by (simp add: s1_def dispatch_slot_other)
  have b: "\<forall>k\<in>set is. k < length (timer s1)" using Cons.prems len1 by simp
  have l: "length (timer s1) \<le> 255" using Cons.prems len1 by simp
  note IH = Cons.IH [OF d b l]
  have f: "fold (dispatch_slot dm) (i # is) s = fold (dispatch_slot dm) is s1"
    by (simp add: s1_def)
  have c1: "slot_calls j s1 = slot_calls j s @
     (if j = i \<and> toBeCalled (timer s ! i) \<noteq> TIMER_DEFCALL_DONTRUN
      then [(i, call_of (timer s ! i))] else [])"
    unfolding s1_def by (rule dispatch_slot_calls)
  show ?case
  proof (cases "j = i")
    case True
    then have "j \<notin> set is" using ni by simp
    then have "slot_calls j (fold (dispatch_slot dm) is s1) = slot_calls j s1"
      using IH by simp
    then show ?thesis unfolding f using c1 True by simp
  next
    case False
    then have e: "timer s1 ! j = timer s ! j" by (rule other)
    have "slot_calls j s1 = slot_calls j s" using c1 False by simp
    then show ?thesis unfolding f using IH e False by simp
  qed
qed

lemma run_calls:
  assumes r: "run RF now dm s = Inr s'" and cap: "length (timer s) \<le> 255"
    and j: "j < length (timer s)" and sl: "scan_slot RF now (timer s ! j) = Inr t'"
  shows "slot_calls j s' =
           slot_calls j s @
           (if toBeCalled t' = TIMER_DEFCALL_DONTRUN then [] else [(j, call_of (timer s ! j))])"
proof -
  from run_Inr [OF r] obtain s1 where sc: "scan RF now s = Inr s1" and s': "s' = dispatch dm s1"
    by blast
  have len: "length (timer s1) = length (timer s)" by (rule scan_Inr(1) [OF sc])
  have "scan_slot RF now (timer s ! j) = Inr (timer s1 ! j)" using scan_Inr(4) [OF sc] j by simp
  then have t1: "timer s1 ! j = t'" using sl by simp
  have d: "s' = fold (dispatch_slot dm) [0..<length (timer s1)] s1"
    by (simp add: s' dispatch_def MAX_NUMBER_TIMERS_def)
  have "slot_calls j (fold (dispatch_slot dm) [0..<length (timer s1)] s1) =
     slot_calls j s1 @
     (if j \<in> set [0..<length (timer s1)] \<and> toBeCalled (timer s1 ! j) \<noteq> TIMER_DEFCALL_DONTRUN
      then [(j, call_of (timer s1 ! j))] else [])"
    by (rule dispatch_fold_calls) (simp_all add: len cap)
  moreover have "slot_calls j s1 = slot_calls j s"
    using scan_Inr(3) [OF sc] by (simp add: slot_calls_def)
  moreover have "call_of t' = call_of (timer s ! j)"
    using scan_slot_fields [OF sl] by (simp add: call_of_def)
  ultimately show ?thesis unfolding d [symmetric] using t1 j len by simp
qed

lemma scan_slot_due:
  assumes "scan_slot RF now t = Inr t'" and "callback t \<noteq> NULL" and "enabled t"
    and "maxNumRuns t \<noteq> RF" and "numRuns t < maxNumRuns t"
  shows "toBeCalled t' \<noteq> TIMER_DEFCALL_DONTRUN \<longleftrightarrow> delay t \<le> now - prev_millis t"
  using assms by (auto simp: scan_slot_def Let_def split: if_splits)

section \<open>One operation, seen from one timer\<close>

lemma run_timer_step:
  assumes inv: "sched_inv s" and i: "i < length (timer s)" and a: "armed RF i n s"
    and r: "run RF now dm s = Inr s'"
  shows "remaining i s' + (if due i (Tick now dm) s then 1 else 0) = remaining i s"
    and "slot_calls i s' =
           slot_calls i s @ replicate (if due i (Tick now dm) s then 1 else 0) (i, call_of (timer s ! i))"
    and "callback (timer s' ! i) \<noteq> NULL \<longrightarrow>
           callback (timer s' ! i) = callback (timer s ! i) \<and> call_of (timer s' ! i) = call_of (timer s ! i)"
proof -
  have cap: "length (timer s) \<le> 255" using inv by (simp add: sched_inv_def MAX_NUMBER_TIMERS_def)
  obtain t' where sl: "scan_slot RF now (timer s ! i) = Inr t'"
    and f: "fired i s' = fired i s + (if toBeCalled t' = TIMER_DEFCALL_DONTRUN then 0 else 1)"
    and k: "toBeCalled t' \<noteq> TIMER_DEFCALL_RUNANDDEL \<Longrightarrow> timer s' ! i = t'"
    and l: "length (timer s') = length (timer s)"
    by (rule run_basicE [OF r cap i]) blast
  let ?t = "timer s ! i"
  have M: "toBeCalled t' \<noteq> TIMER_DEFCALL_DONTRUN \<longleftrightarrow> due i (Tick now dm) s"
  proof (cases "callback ?t = NULL")
    case True
    then have "t' = ?t\<lparr>toBeCalled := TIMER_DEFCALL_DONTRUN\<rparr>"
      using sl scan_slot_free [of ?t RF now] by simp
    then have "toBeCalled t' = TIMER_DEFCALL_DONTRUN" by simp
    then show ?thesis using True by simp
  next
    case False
    then have "enabled ?t" "maxNumRuns ?t \<noteq> RF" "numRuns ?t < maxNumRuns ?t"
      using a by (auto simp: armed_def)
    from scan_slot_due [OF sl False this] show ?thesis using False by simp
  qed
  have "fired i s' + remaining i s' = fired i s + remaining i s"
    by (rule run_armed(2) [OF inv i a r])
  then show "remaining i s' + (if due i (Tick now dm) s then 1 else 0) = remaining i s"
    using f M by (simp split: if_splits)
  have "slot_calls i s' = slot_calls i s @
      (if toBeCalled t' = TIMER_DEFCALL_DONTRUN then [] else [(i, call_of ?t)])"
    by (rule run_calls [OF r cap i sl])
  then show "slot_calls i s' =
           slot_calls i s @ replicate (if due i (Tick now dm) s then 1 else 0) (i, call_of ?t)"
    using M by (simp split: if_splits)
  show "callback (timer s' ! i) \<noteq> NULL \<longrightarrow>
           callback (timer s' ! i) = callback ?t \<and> call_of (timer s' ! i) = call_of ?t"
  proof
    assume c: "callback (timer s' ! i) \<noteq> NULL"
    have del: "toBeCalled t' = TIMER_DEFCALL_RUNANDDEL \<Longrightarrow>
        timer s' ! i = zeroed\<lparr>prev_millis := dm i\<rparr>"
      using run_inv(2) [OF inv r] i sl by blast
    have "toBeCalled t' \<noteq> TIMER_DEFCALL_RUNANDDEL"
    proof
      assume "toBeCalled t' = TIMER_DEFCALL_RUNANDDEL"
      then have "callback (timer s' ! i) = NULL" using del by (simp add: zeroed_def)
      then show False using c by simp
    qed
    then have "timer s' ! i = t'" by (rule k)
    then show "callback (timer s' ! i) = callback ?t \<and> call_of (timer s' ! i) = call_of ?t"
      using scan_slot_fields [OF sl] by (simp add: call_of_def)
  qed
qed

lemma setupTimer_other:
  assumes inv: "sched_inv s" and ne: "findFirstFreeSlot s \<noteq> int i"
  shows "timer (snd (setupTimer d f p h n m0 m1 s)) ! i = timer s ! i"
    and "length (timer (snd (setupTimer d f p h n m0 m1 s))) = length (timer s)"
    and "calls (snd (setupTimer d f p h n m0 m1 s)) = calls s"
proof -
  have nn: "0 \<le> sint (numTimers s)" using sched_inv_sint(1) [OF inv] by simp
  have "timer (snd (setupTimer d f p h n m0 m1 s)) ! i = timer s ! i \<and>
        length (timer (snd (setupTimer d f p h n m0 m1 s))) = length (timer s) \<and>
        calls (snd (setupTimer d f p h n m0 m1 s)) = calls s"
  proof (cases "findFirstFreeSlot s < 0 \<or> f = NULL")
    case True
    then show ?thesis using setupTimer_fail [OF nn True, of d p h n m0 m1] by simp
  next
    case False
    then have f: "f \<noteq> NULL" and "findFirstFreeSlot s \<noteq> - 1" by auto
    then obtain k where k: "k < length (timer s)" and fr: "findFirstFreeSlot s = int k"
      using findFirstFreeSlot_cases [of s] by auto
    have "k \<noteq> i" using fr ne by auto
    then show ?thesis using setupTimer_ok [OF nn fr f, of d p h n m0 m1] by simp
  qed
  then show "timer (snd (setupTimer d f p h n m0 m1 s)) ! i = timer s ! i"
    and "length (timer (snd (setupTimer d f p h n m0 m1 s))) = length (timer s)"
    and "calls (snd (setupTimer d f p h n m0 m1 s)) = calls s"
    by simp_all
qed

lemma step_quiet:
  assumes inv: "sched_inv s" and i: "i < length (timer s)" and lv: "leaves RF i x s"
    and nt: "\<forall>now dm. x \<noteq> Tick now dm" and st: "step RF x s = Inr s1"
  shows "length (timer s1) = length (timer s)" and "calls s1 = calls s"
    and "callback (timer s1 ! i) = callback (timer s ! i)"
    and "param (timer s1 ! i) = param (timer s ! i)"
    and "hasParam (timer s1 ! i) = hasParam (timer s ! i)"
    and "maxNumRuns (timer s1 ! i) = maxNumRuns (timer s ! i)"
    and "numRuns (timer s1 ! i) = numRuns (timer s ! i)"
    and "enabled (timer s ! i) \<longrightarrow> enabled (timer s1 ! i)"
proof -
  have "length (timer s1) = length (timer s) \<and> calls s1 = calls s \<and>
      callback (timer s1 ! i) = callback (timer s ! i) \<and>
      param (timer s1 ! i) = param (timer s ! i) \<and>
      hasParam (timer s1 ! i) = hasParam (timer s ! i) \<and>
      maxNumRuns (timer s1 ! i) = maxNumRuns (timer s ! i) \<and>
      numRuns (timer s1 ! i) = numRuns (timer s ! i) \<and>
      (enabled (timer s ! i) \<longrightarrow> enabled (timer s1 ! i))"
  proof (cases x)
    case (Register d f p h n m0 m1)
    then have "findFirstFreeSlot s \<noteq> int i" using lv by simp
    moreover have "s1 = snd (setupTimer d f p h n m0 m1 s)" using st Register by simp
    ultimately show ?thesis using setupTimer_other [OF inv, of i d f p h n m0 m1] by simp
  next
    case (Tick now dm)
    then show ?thesis using nt by simp
  next
    case (Remove numTimer now)
    then have "i \<noteq> unat numTimer" using lv by auto
    then have "timer (deleteTimer numTimer now s) ! i = timer s ! i" by (rule deleteTimer_other)
    moreover have "s1 = deleteTimer numTimer now s" using st Remove by simp
    ultimately show ?thesis by (simp add: deleteTimer_length deleteTimer_calls)
  next
    case (Restart numTimer now)
    then have s1: "s1 = restartTimer numTimer now s" using st by simp
    show ?thesis unfolding s1 using i
      by (simp add: restartTimer_def MAX_NUMBER_TIMERS_def nth_list_update)
  next
    case (ChangeInterval numTimer d now)
    then have s1: "s1 = snd (changeInterval numTimer d now s)" using st by simp
    show ?thesis unfolding s1 using i
      by (simp add: changeInterval_def MAX_NUMBER_TIMERS_def nth_list_update)
  next
    case (Enable numTimer)
    then have s1: "s1 = enable numTimer s" using st by simp
    show ?thesis unfolding s1 using i
      by (simp add: enable_def MAX_NUMBER_TIMERS_def nth_list_update)
  next
    case (Disable numTimer)
    then have ne: "unat numTimer \<noteq> i" and s1: "s1 = disable numTimer s"
      using lv st by simp_all
    show ?thesis unfolding s1 using i ne
      by (simp add: disable_def MAX_NUMBER_TIMERS_def nth_list_update)
  next
    case (Toggle numTimer)
    then have ne: "unat numTimer \<noteq> i" and s1: "s1 = toggle numTimer s"
      using lv st by simp_all
    show ?thesis unfolding s1 using i ne
      by (simp add: toggle_def MAX_NUMBER_TIMERS_def nth_list_update)
  next
    case EnableAll
    then have "s1 = enableAll RF s" using st by simp
    then show ?thesis using i by (simp add: enableAll_eq)
  next
    case DisableAll
    then have s1: "s1 = disableAll RF s" using st by simp
    have "callback (timer s ! i) = NULL \<or> numRuns (timer s ! i) \<noteq> RF"
      using lv DisableAll by simp
    then show ?thesis using i by (auto simp: s1 disableAll_eq)
  qed
  then show "length (timer s1) = length (timer s)" and "calls s1 = calls s"
    and "callback (timer s1 ! i) = callback (timer s ! i)"
    and "param (timer s1 ! i) = param (timer s ! i)"
    and "hasParam (timer s1 ! i) = hasParam (timer s ! i)"
    and "maxNumRuns (timer s1 ! i) = maxNumRuns (timer s ! i)"
    and "numRuns (timer s1 ! i) = numRuns (timer s ! i)"
    and "enabled (timer s ! i) \<longrightarrow> enabled (timer s1 ! i)"
    by simp_all
qed

lemma step_timer:
  assumes inv: "sched_inv s" and i: "i < length (timer s)" and a: "armed RF i n s"
    and lv: "leaves RF i x s" and st: "step RF x s = Inr s1"
  shows "sched_inv s1" and "length (timer s1) = length (timer s)" and "armed RF i n s1"
    and "remaining i s1 + (if due i x s then 1 else 0) = remaining i s"
    and "slot_calls i s1 =
           slot_calls i s @ replicate (if due i x s then 1 else 0) (i, call_of (timer s ! i))"
    and "callback (timer s1 ! i) \<noteq> NULL \<longrightarrow>
           callback (timer s1 ! i) = callback (timer s ! i) \<and> call_of (timer s1 ! i) = call_of (timer s ! i)"
proof -
  show "sched_inv s1" by (rule step_inv [OF inv st])
  have "length (timer s1) = length (timer s) \<and> armed RF i n s1 \<and>
      remaining i s1 + (if due i x s then 1 else 0) = remaining i s \<and>
      slot_calls i s1 =
           slot_calls i s @ replicate (if due i x s then 1 else 0) (i, call_of (timer s ! i)) \<and>
      (callback (timer s1 ! i) \<noteq> NULL \<longrightarrow>
           callback (timer s1 ! i) = callback (timer s ! i) \<and> call_of (timer s1 ! i) = call_of (timer s ! i))"
  proof (cases "\<exists>now dm. x = Tick now dm")
    case True
    then obtain now dm where x: "x = Tick now dm" by blast
    then have r: "run RF now dm s = Inr s1" using st by simp
    show ?thesis
      unfolding x
      using run_timer_step [OF inv i a r] run_armed(1) [OF inv i a r]
        run_never_allocates(1) [OF inv i r]
      by simp
  next
    case False
    then have nt: "\<forall>now dm. x \<noteq> Tick now dm" by simp
    note q = step_quiet [OF inv i lv nt st]
    have nd: "\<not> due i x s" using nt by (cases x) simp_all
    have a1: "armed RF i n s1" using a q(3,6,7,8) by (auto simp: armed_def)
    have r1: "remaining i s1 = remaining i s" using q(3,6,7) by (simp add: remaining_def)
    have c1: "slot_calls i s1 = slot_calls i s" using q(2) by (simp add: slot_calls_def)
    have k1: "call_of (timer s1 ! i) = call_of (timer s ! i)"
      using q(3,4,5) by (simp add: call_of_def)
    show ?thesis using q(1,3) nd a1 r1 c1 k1 by simp
  qed
  then show "length (timer s1) = length (timer s)" and "armed RF i n s1"
    and "remaining i s1 + (if due i x s then 1 else 0) = remaining i s"
    and "slot_calls i s1 =
           slot_calls i s @ replicate (if due i x s then 1 else 0) (i, call_of (timer s ! i))"
    and "callback (timer s1 ! i) \<noteq> NULL \<longrightarrow>
           callback (timer s1 ! i) = callback (timer s ! i) \<and> call_of (timer s1 ! i) = call_of (timer s ! i)"
    by simp_all
qed

lemma exec_timer:
  "sched_inv s \<Longrightarrow> i < length (timer s) \<Longrightarrow> armed RF i n s \<Longrightarrow>
   callback (timer s ! i) = NULL \<or> (callback (timer s ! i) = f \<and> call_of (timer s ! i) = c) \<Longrightarrow>
   undisturbed RF i xs s \<Longrightarrow> exec RF xs s = Inr s' \<Longrightarrow>
   sched_inv s' \<and> length (timer s') = length (timer s) \<and> armed RF i n s' \<and>
   (callback (timer s' ! i) = NULL \<or> (callback (timer s' ! i) = f \<and> call_of (timer s' ! i) = c)) \<and>
   remaining i s' + due_count RF i xs s = remaining i s \<and>
   slot_calls i s' = slot_calls i s @ replicate (due_count RF i xs s) (i, c)"
proof (induction xs arbitrary: s)
  case Nil
  then show ?case by simp
next
  case (Cons x xs)
  from Cons.prems(6) obtain s1 where st: "step RF x s = Inr s1" and rest: "exec RF xs s1 = Inr s'"
    by (auto split: sum.splits)
  have lv: "leaves RF i x s" and u1: "undisturbed RF i xs s1"
    using Cons.prems(5) st by simp_all
  note t = step_timer [OF Cons.prems(1,2,3) lv st]
  have i1: "i < length (timer s1)" using t(2) Cons.prems(2) by simp
  have id1: "callback (timer s1 ! i) = NULL \<or>
      (callback (timer s1 ! i) = f \<and> call_of (timer s1 ! i) = c)"
    using t(6) Cons.prems(4) by auto
  note IH = Cons.IH [OF t(1) i1 t(3) id1 u1 rest]
  have dc: "due_count RF i (x # xs) s = (if due i x s then 1 else 0) + due_count RF i xs s1"
    using st by simp
  have cs: "replicate (if due i x s then 1 else 0) (i, call_of (timer s ! i)) =
      replicate (if due i x s then 1 else 0) (i, c)"
  proof (cases "due i x s")
    case True
    then have "callback (timer s ! i) \<noteq> NULL" by (cases x) simp_all
    then show ?thesis using Cons.prems(4) by simp
  next
    case False
    then show ?thesis by simp
  qed
  have "slot_calls i s' =
      slot_calls i s @ replicate ((if due i x s then 1 else 0) + due_count RF i xs s1) (i, c)"
    using IH t(5) cs by (simp add: replicate_add)
  moreover have "remaining i s' + ((if due i x s then 1 else 0) + due_count RF i xs s1)
      = remaining i s"
    using IH t(4) by simp
  ultimately show ?case unfolding dc using IH t(2) by simp
qed

text \<open>
  C2. A timer registered (in any reachable state) with a finite number of runs \<open>n\<close>,
  \<open>n \<ge> 1\<close> and \<open>n\<close> not the run-forever sentinel, and then left alone: any operations may
  follow, ticks and calls on other timers included, as long as none removes or disables
  this timer or registers into its slot. Then its callback, in the shape it was
  registered with, is invoked once at every tick at which the timer is due, and at no
  other time; these are at most \<open>n\<close> invocations, \<open>numRuns\<close> counts them, and the slot is
  free exactly when the \<open>n\<close>-th has happened. The tick that makes the \<open>n\<close>-th invocation
  frees the slot: \<open>getNumTimers\<close> drops by one for every slot that tick frees (by exactly
  one when no other timer ends in it), and \<open>changeInterval\<close> on the old id returns false
  and changes nothing.
\<close>

theorem finite_timer_runs_n_times:
  assumes "MAX_NUMBER_TIMERS s0 \<le> 255" and "exec RF ops (init m s0) = Inr sa"
    and "setupTimer d f p h n m0 m1 sa = (r, s)" and "0 \<le> r" and "n \<noteq> RF" and "0 < n"
    and "undisturbed RF (nat r) ops2 s" and "exec RF ops2 s = Inr s'"
  shows "slot_calls (nat r) s' =
           slot_calls (nat r) s @
           replicate (due_count RF (nat r) ops2 s) (nat r, if h then Call1 f p else Call0 f)
       \<and> fired (nat r) s' = fired (nat r) s + due_count RF (nat r) ops2 s
       \<and> due_count RF (nat r) ops2 s \<le> unat n
       \<and> (callback (timer s' ! nat r) = NULL \<longleftrightarrow> due_count RF (nat r) ops2 s = unat n)
       \<and> (callback (timer s' ! nat r) \<noteq> NULL \<longrightarrow>
            callback (timer s' ! nat r) = f \<and> enabled (timer s' ! nat r) \<and>
            maxNumRuns (timer s' ! nat r) = n \<and>
            unat (numRuns (timer s' ! nat r)) = due_count RF (nat r) ops2 s)
       \<and> (callback (timer s' ! nat r) = NULL \<longrightarrow>
            changeInterval (of_int r) d' now' s' = (False, s'))
       \<and> (run RF now dm s' = Inr s'' \<longrightarrow>
            unat (getNumTimers s'') +
              card {j. j < MAX_NUMBER_TIMERS s' \<and> callback (timer s' ! j) \<noteq> NULL
                       \<and> callback (timer s'' ! j) = NULL}
              = unat (getNumTimers s')
            \<and> (due (nat r) (Tick now dm) s' \<and> due_count RF (nat r) ops2 s + 1 = unat n \<longrightarrow>
                 fired (nat r) s'' = fired (nat r) s + unat n
                 \<and> callback (timer s'' ! nat r) = NULL
                 \<and> changeInterval (of_int r) d' now' s'' = (False, s'')
                 \<and> ((\<forall>j<MAX_NUMBER_TIMERS s'. j \<noteq> nat r \<longrightarrow> callback (timer s' ! j) \<noteq> NULL \<longrightarrow>
                        callback (timer s'' ! j) \<noteq> NULL)
                      \<longrightarrow> unat (getNumTimers s'') + 1 = unat (getNumTimers s'))))"
proof -
  let ?i = "nat r"
  let ?c = "if h then Call1 f p else Call0 f"
  let ?k = "due_count RF ?i ops2 s"
  have "sched_inv (init m s0)"
    using assms(1) by (intro init_inv) (simp add: MAX_NUMBER_TIMERS_def)
  then have inva: "sched_inv sa" using assms(2) by (rule exec_inv)
  have inv: "sched_inv s" using setupTimer_inv [OF inva, of d f p h n m0 m1] assms(3) by simp
  note reg = setupTimer_registered [OF inva assms(3,4)]
  have lt: "numRuns (timer s ! ?i) < n" using reg(6) assms(6) by simp
  have a: "armed RF ?i n s" using reg(4,5) lt assms(5) by (simp add: armed_def)
  have rem: "remaining ?i s = unat n" using reg(2,3,5,6) by (simp add: remaining_def)
  have id0: "callback (timer s ! ?i) = NULL \<or>
      (callback (timer s ! ?i) = f \<and> call_of (timer s ! ?i) = ?c)"
    using reg(2,9,10) by (simp add: call_of_def)
  from exec_timer [OF inv reg(1) a id0 assms(7,8)]
  have inv': "sched_inv s'" and l: "length (timer s') = length (timer s)"
    and a': "armed RF ?i n s'"
    and id': "callback (timer s' ! ?i) = NULL \<or>
      (callback (timer s' ! ?i) = f \<and> call_of (timer s' ! ?i) = ?c)"
    and cons: "remaining ?i s' + ?k = unat n"
    and calls: "slot_calls ?i s' = slot_calls ?i s @ replicate ?k (?i, ?c)"
    using rem by simp_all
  have i': "?i < length (timer s')" using l reg(1) by simp
  have cap': "length (timer s') \<le> 255"
    using inv' by (simp add: sched_inv_def MAX_NUMBER_TIMERS_def)
  have pos: "callback (timer s' ! ?i) \<noteq> NULL \<Longrightarrow> 0 < remaining ?i s'"
    using a' by (intro remaining_pos) (auto simp: armed_def)
  have zero: "callback (timer s' ! ?i) = NULL \<Longrightarrow> remaining ?i s' = 0"
    by (simp add: remaining_def)
  have c2: "fired ?i s' = fired ?i s + ?k" using calls by (simp add: fired_slot_calls)
  have c3: "?k \<le> unat n" using cons by simp
  have c4: "callback (timer s' ! ?i) = NULL \<longleftrightarrow> ?k = unat n"
    using cons pos zero by (cases "callback (timer s' ! ?i) = NULL") auto
  have c5: "callback (timer s' ! ?i) \<noteq> NULL \<longrightarrow>
            callback (timer s' ! ?i) = f \<and> enabled (timer s' ! ?i) \<and>
            maxNumRuns (timer s' ! ?i) = n \<and> unat (numRuns (timer s' ! ?i)) = ?k"
  proof
    assume u: "callback (timer s' ! ?i) \<noteq> NULL"
    then have e: "enabled (timer s' ! ?i)" and mx: "maxNumRuns (timer s' ! ?i) = n"
      and nr: "numRuns (timer s' ! ?i) < n"
      using a' by (auto simp: armed_def)
    have "remaining ?i s' = unat n - unat (numRuns (timer s' ! ?i))"
      and "unat (numRuns (timer s' ! ?i)) < unat n"
      using u mx nr by (simp_all add: remaining_def word_less_nat_alt)
    then have "unat (numRuns (timer s' ! ?i)) = ?k" using cons by arith
    then show "callback (timer s' ! ?i) = f \<and> enabled (timer s' ! ?i) \<and>
            maxNumRuns (timer s' ! ?i) = n \<and> unat (numRuns (timer s' ! ?i)) = ?k"
      using u id' e mx by simp
  qed
  have u: "unat (of_int r :: 32 word) = ?i"
    using assms(4) i' cap' by (intro unat_slot_id) simp_all
  have c6: "callback (timer s' ! ?i) = NULL \<longrightarrow> changeInterval (of_int r) d' now' s' = (False, s')"
    using u by (simp add: changeInterval_def)
  have c7: "run RF now dm s' = Inr s'' \<longrightarrow>
            unat (getNumTimers s'') +
              card {j. j < MAX_NUMBER_TIMERS s' \<and> callback (timer s' ! j) \<noteq> NULL
                       \<and> callback (timer s'' ! j) = NULL}
              = unat (getNumTimers s')
            \<and> (due ?i (Tick now dm) s' \<and> ?k + 1 = unat n \<longrightarrow>
                 fired ?i s'' = fired ?i s + unat n
                 \<and> callback (timer s'' ! ?i) = NULL
                 \<and> changeInterval (of_int r) d' now' s'' = (False, s'')
                 \<and> ((\<forall>j<MAX_NUMBER_TIMERS s'. j \<noteq> ?i \<longrightarrow> callback (timer s' ! j) \<noteq> NULL \<longrightarrow>
                        callback (timer s'' ! j) \<noteq> NULL)
                      \<longrightarrow> unat (getNumTimers s'') + 1 = unat (getNumTimers s')))"
  proof
    assume run: "run RF now dm s' = Inr s''"
    have inv'': "sched_inv s''" by (rule run_inv(1) [OF inv' run])
    have l'': "length (timer s'') = length (timer s')"
      by (rule run_never_allocates(1) [OF inv' i' run])
    have sub: "\<forall>j<length (timer s'). callback (timer s'' ! j) \<noteq> NULL \<longrightarrow>
        callback (timer s' ! j) \<noteq> NULL"
      using run_never_allocates(2) [OF inv' _ run] by blast
    note cnt = freed_count [OF inv' inv'' l'' sub]
    have last: "due ?i (Tick now dm) s' \<and> ?k + 1 = unat n \<longrightarrow>
                 fired ?i s'' = fired ?i s + unat n
                 \<and> callback (timer s'' ! ?i) = NULL
                 \<and> changeInterval (of_int r) d' now' s'' = (False, s'')
                 \<and> ((\<forall>j<MAX_NUMBER_TIMERS s'. j \<noteq> ?i \<longrightarrow> callback (timer s' ! j) \<noteq> NULL \<longrightarrow>
                        callback (timer s'' ! j) \<noteq> NULL)
                      \<longrightarrow> unat (getNumTimers s'') + 1 = unat (getNumTimers s'))"
    proof
      assume h: "due ?i (Tick now dm) s' \<and> ?k + 1 = unat n"
      have st: "step RF (Tick now dm) s' = Inr s''" using run by simp
      have lv: "leaves RF ?i (Tick now dm) s'" by simp
      note t = step_timer [OF inv' i' a' lv st]
      have r0: "remaining ?i s'' = 0" using t(4) h cons by simp
      have gone: "callback (timer s'' ! ?i) = NULL"
      proof (rule ccontr)
        assume "callback (timer s'' ! ?i) \<noteq> NULL"
        then have "0 < remaining ?i s''"
          using t(3) by (intro remaining_pos) (auto simp: armed_def)
        then show False using r0 by simp
      qed
      have "fired ?i s'' = fired ?i s' + 1" using t(5) h by (simp add: fired_slot_calls)
      then have f: "fired ?i s'' = fired ?i s + unat n" using c2 h by simp
      have ci: "changeInterval (of_int r) d' now' s'' = (False, s'')"
        using u gone by (simp add: changeInterval_def)
      have was: "callback (timer s' ! ?i) \<noteq> NULL" using h by simp
      have one: "(\<forall>j<MAX_NUMBER_TIMERS s'. j \<noteq> ?i \<longrightarrow> callback (timer s' ! j) \<noteq> NULL \<longrightarrow>
                        callback (timer s'' ! j) \<noteq> NULL)
                      \<longrightarrow> unat (getNumTimers s'') + 1 = unat (getNumTimers s')"
      proof
        assume o: "\<forall>j<MAX_NUMBER_TIMERS s'. j \<noteq> ?i \<longrightarrow> callback (timer s' ! j) \<noteq> NULL \<longrightarrow>
                        callback (timer s'' ! j) \<noteq> NULL"
        have "{j. j < MAX_NUMBER_TIMERS s' \<and> callback (timer s' ! j) \<noteq> NULL
                       \<and> callback (timer s'' ! j) = NULL} = {?i}"
          using o gone was i' by (auto simp: MAX_NUMBER_TIMERS_def)
        then show "unat (getNumTimers s'') + 1 = unat (getNumTimers s')" using cnt by simp
      qed
      show "fired ?i s'' = fired ?i s + unat n
                 \<and> callback (timer s'' ! ?i) = NULL
                 \<and> changeInterval (of_int r) d' now' s'' = (False, s'')
                 \<and> ((\<forall>j<MAX_NUMBER_TIMERS s'. j \<noteq> ?i \<longrightarrow> callback (timer s' ! j) \<noteq> NULL \<longrightarrow>
                        callback (timer s'' ! j) \<noteq> NULL)
                      \<longrightarrow> unat (getNumTimers s'') + 1 = unat (getNumTimers s'))"
        using f gone ci one by blast
    qed
    show "unat (getNumTimers s'') +
              card {j. j < MAX_NUMBER_TIMERS s' \<and> callback (timer s' ! j) \<noteq> NULL
                       \<and> callback (timer s'' ! j) = NULL}
              = unat (getNumTimers s')
            \<and> (due ?i (Tick now dm) s' \<and> ?k + 1 = unat n \<longrightarrow>
                 fired ?i s'' = fired ?i s + unat n
                 \<and> callback (timer s'' ! ?i) = NULL
                 \<and> changeInterval (of_int r) d' now' s'' = (False, s'')
                 \<and> ((\<forall>j<MAX_NUMBER_TIMERS s'. j \<noteq> ?i \<longrightarrow> callback (timer s' ! j) \<noteq> NULL \<longrightarrow>
                        callback (timer s'' ! j) \<noteq> NULL)
                      \<longrightarrow> unat (getNumTimers s'') + 1 = unat (getNumTimers s')))"
      using cnt last by blast
  qed
  show ?thesis using calls c2 c3 c4 c5 c6 c7 by blast
qed

text \<open>Capacity 3, slot 0 taken by a run-forever timer. The timer of three runs gets
  slot 1. It is invoked at the ticks at 10 and 20, while another timer is registered,
  runs once and ends, and other calls are made; the tick at 35 makes the third
  invocation and frees the slot.\<close>

theorem finite_timer_runs_n_times_witness:
  "fst (setupTimer 10 4096 7 True 3 0 0 demo_base) = 1
   \<and> due_count 0 1 demo_life demo_reg = 2
   \<and> slot_calls 1 demo_mid = [(1, Call1 4096 7), (1, Call1 4096 7)]
   \<and> unat (numRuns (timer demo_mid ! 1)) = 2 \<and> callback (timer demo_mid ! 1) = 4096
   \<and> fired 1 demo_done = 3 \<and> callback (timer demo_done ! 1) = NULL
   \<and> unat (getNumTimers demo_mid) = 2 \<and> unat (getNumTimers demo_done) = 1
   \<and> changeInterval 1 50 60 demo_done = (False, demo_done)"
proof -
  have c: "MAX_NUMBER_TIMERS (Portenta_H7_ISR_Timer [zeroed, zeroed, zeroed]) \<le> 255"
    by (simp add: MAX_NUMBER_TIMERS_def Portenta_H7_ISR_Timer_def)
  have e: "exec 0 [Register 20 8192 0 False 0 0 0]
      (init 0 (Portenta_H7_ISR_Timer [zeroed, zeroed, zeroed])) = Inr demo_base" by code_simp
  have st: "setupTimer 10 4096 7 True 3 0 0 demo_base = (1, demo_reg)" by code_simp
  have r0: "0 \<le> (1 :: int)" by simp
  have n: "(3 :: unsigned) \<noteq> 0" "0 < (3 :: unsigned)" by simp_all
  have u: "undisturbed 0 (nat 1) demo_life demo_reg" by code_simp
  have x: "exec 0 demo_life demo_reg = Inr demo_mid" by code_simp
  have r: "run 0 35 (\<lambda>_. 35) demo_mid = Inr demo_done" by code_simp
  have k: "due_count 0 (nat 1) demo_life demo_reg = 2" by code_simp
  have hk: "due (nat 1) (Tick 35 (\<lambda>_. 35)) demo_mid \<and>
      due_count 0 (nat 1) demo_life demo_reg + 1 = unat (3 :: unsigned)" by code_simp
  have o: "\<forall>j<MAX_NUMBER_TIMERS demo_mid. j \<noteq> nat 1 \<longrightarrow> callback (timer demo_mid ! j) \<noteq> NULL \<longrightarrow>
      callback (timer demo_done ! j) \<noteq> NULL" by code_simp
  have alive: "callback (timer demo_mid ! nat 1) \<noteq> NULL" by code_simp
  have v: "slot_calls (nat 1) demo_reg = []" "fired (nat 1) demo_reg = 0"
    "unat (getNumTimers demo_mid) = 2" by code_simp+
  note T = finite_timer_runs_n_times [OF c e st r0 n u x, of 50 60 35 "\<lambda>_. 35" demo_done]
  note A1 = T [THEN conjunct1]
  note A5 = T [THEN conjunct2, THEN conjunct2, THEN conjunct2, THEN conjunct2, THEN conjunct1,
      THEN mp, OF alive]
  note A7 = T [THEN conjunct2, THEN conjunct2, THEN conjunct2, THEN conjunct2, THEN conjunct2,
      THEN conjunct2, THEN mp, OF r]
  note C = A7 [THEN conjunct2, THEN mp, OF hk]
  note D = C [THEN conjunct2, THEN conjunct2, THEN conjunct2, THEN mp, OF o]
  have w1: "slot_calls 1 demo_mid = [(1, Call1 4096 7), (1, Call1 4096 7)]"
    using A1 unfolding k v(1) by (simp add: numeral_2_eq_2)
  have w2: "unat (numRuns (timer demo_mid ! 1)) = 2 \<and> callback (timer demo_mid ! 1) = 4096"
    using A5 unfolding k by simp
  have w3: "fired 1 demo_done = 3" using C [THEN conjunct1] unfolding v(2) by simp
  have w4: "callback (timer demo_done ! 1) = NULL"
    using C [THEN conjunct2, THEN conjunct1] by simp
  have w5: "changeInterval 1 50 60 demo_done = (False, demo_done)"
    using C [THEN conjunct2, THEN conjunct2, THEN conjunct1] by simp
  have w6: "unat (getNumTimers demo_done) = 1" using D unfolding v(3) by simp
  have w7: "due_count 0 1 demo_life demo_reg = 2" using k by simp
  have w8: "fst (setupTimer 10 4096 7 True 3 0 0 demo_base) = 1" using st by simp
  show ?thesis using w1 w2 w3 w4 w5 w6 w7 w8 v(3) by blast
qed

end
